theory Spec2Isabelle
  imports Complex_Main "HOL-Library.Word"
begin

section \<open>JavaScript values used by the server\<close>

subsection \<open>Strings\<close>

text \<open>
  A JavaScript string is a sequence of UTF-16 code units, and \<open>.length\<close> counts code
  units. \<open>js\<close> writes an ASCII literal as such a sequence.
\<close>

type_synonym jschar = "16 word"
type_synonym jsstring = "jschar list"

definition js :: "string \<Rightarrow> jsstring" where
  "js s = map (\<lambda>c. of_nat (of_char c)) s"

definition SPACE :: jschar where
  "SPACE = 0x20"

text \<open>
  \<open>String.prototype.trim\<close> strips the code units of the ECMAScript productions
  WhiteSpace (TAB, VT, FF, ZWNBSP and the space separators) and LineTerminator
  (LF, CR, LS, PS) from both ends.
\<close>

definition isWhiteSpace :: "jschar \<Rightarrow> bool" where
  "isWhiteSpace c \<longleftrightarrow>
     c \<in> set [0x09, 0x0A, 0x0B, 0x0C, 0x0D, 0x20, 0xA0, 0x1680,
                0x2000, 0x2001, 0x2002, 0x2003, 0x2004, 0x2005, 0x2006, 0x2007,
                0x2008, 0x2009, 0x200A, 0x2028, 0x2029, 0x202F, 0x205F, 0x3000, 0xFEFF]"

definition trim :: "jsstring \<Rightarrow> jsstring" where
  "trim s = rev (dropWhile isWhiteSpace (rev (dropWhile isWhiteSpace s)))"

text \<open>\<open>s.startsWith(p)\<close> and \<open>s.includes(p)\<close>.\<close>

fun startsWith :: "'a list \<Rightarrow> 'a list \<Rightarrow> bool" where
  "startsWith s [] \<longleftrightarrow> True"
| "startsWith [] (p # ps) \<longleftrightarrow> False"
| "startsWith (c # cs) (p # ps) \<longleftrightarrow> c = p \<and> startsWith cs ps"

fun js_includes :: "'a list \<Rightarrow> 'a list \<Rightarrow> bool" where
  "js_includes [] p \<longleftrightarrow> startsWith [] p"
| "js_includes (c # cs) p \<longleftrightarrow> startsWith (c # cs) p \<or> js_includes cs p"

subsection \<open>Numbers\<close>

text \<open>
  Embedding components are finite numbers (type \<open>real\<close>, of which the finite doubles are
  a part). A similarity score is a \<open>jsnum\<close>: a finite number, an infinity or \<open>NaN\<close>, the
  values a double can take (the two zeros are one number here; they compare as equal).
  \<open>cosineSimilarity\<close> below computes with exact arithmetic. It keeps the special values
  of the unguarded division (\<open>x / 0\<close> is an infinity for \<open>x \<noteq> 0\<close>, and \<open>0 / 0\<close> is \<open>NaN\<close>),
  but not the rounding, overflow and underflow of doubles: the engine's score is the
  exact one only up to rounding, two records of equal exact score may get different
  doubles, and a norm that underflows to \<open>0\<close> gives \<open>NaN\<close> at a vector that is not zero.
  The ranking is therefore also given with the similarity computation as a parameter
  (\<open>process_with\<close> below), and order is stated for every such computation.
\<close>

datatype jsnum = Num real | Infinity | NegInfinity | NaN

text \<open>\<open>x / y\<close> for finite \<open>x\<close> and a finite \<open>y\<close> that is not the negative zero.\<close>

definition js_div :: "real \<Rightarrow> real \<Rightarrow> jsnum" where
  "js_div x y =
     (if y \<noteq> 0 then Num (x / y)
      else if x = 0 then NaN
      else if 0 < x then Infinity
      else NegInfinity)"

text \<open>
  \<open>x - y\<close> on numbers: \<open>NaN\<close> is contagious, and \<open>\<infinity> - \<infinity>\<close> is \<open>NaN\<close>. The difference of
  two finite numbers is the exact one; a comparator result is only read for its sign,
  and the rounded difference of two doubles has the sign of the exact difference (it is
  zero only for equal numbers, and an overflow keeps the sign).
\<close>

fun js_sub :: "jsnum \<Rightarrow> jsnum \<Rightarrow> jsnum" where
  "js_sub NaN _ = NaN"
| "js_sub _ NaN = NaN"
| "js_sub (Num x) (Num y) = Num (x - y)"
| "js_sub (Num x) Infinity = NegInfinity"
| "js_sub (Num x) NegInfinity = Infinity"
| "js_sub Infinity Infinity = NaN"
| "js_sub Infinity _ = Infinity"
| "js_sub NegInfinity NegInfinity = NaN"
| "js_sub NegInfinity _ = NegInfinity"

text \<open>\<open>x >= t\<close> for a finite \<open>t\<close>: every comparison with \<open>NaN\<close> is false.\<close>

fun js_ge :: "jsnum \<Rightarrow> real \<Rightarrow> bool" where
  "js_ge (Num x) t \<longleftrightarrow> t \<le> x"
| "js_ge Infinity t \<longleftrightarrow> True"
| "js_ge NegInfinity t \<longleftrightarrow> False"
| "js_ge NaN t \<longleftrightarrow> False"

fun js_positive :: "jsnum \<Rightarrow> bool" where
  "js_positive (Num x) \<longleftrightarrow> 0 < x"
| "js_positive Infinity \<longleftrightarrow> True"
| "js_positive NegInfinity \<longleftrightarrow> False"
| "js_positive NaN \<longleftrightarrow> False"

subsection \<open>Array.prototype.sort\<close>

text \<open>
  \<open>xs.sort(comparefn)\<close>. ECMAScript reads a comparator result \<open>v\<close> as "\<open>a\<close> after \<open>b\<close>"
  when \<open>v > 0\<close>, as "\<open>a\<close> before \<open>b\<close>" when \<open>v < 0\<close>, and as "equal" when \<open>v\<close> is \<open>0\<close> or
  \<open>NaN\<close>; the sort is stable. For a consistent comparator every conforming engine
  returns the one stable sorted arrangement, and so does the model, a stable insertion
  sort, which moves an element to the right only past elements the comparator puts
  before it. For an inconsistent comparator (here: when a similarity is \<open>NaN\<close>) the
  result is a permutation whose order is implementation-defined, and an engine need not
  order the array as the model does. For a comparator that is a difference, as the one
  of \<open>process\<close>, the two agree on an array in which no element is to come after its
  right neighbour: an engine that looks for runs first finds one run, and the insertion
  sort moves nothing; both leave the array in place.
\<close>

fun js_insert :: "('a \<Rightarrow> 'a \<Rightarrow> jsnum) \<Rightarrow> 'a \<Rightarrow> 'a list \<Rightarrow> 'a list" where
  "js_insert comparefn x [] = [x]"
| "js_insert comparefn x (y # ys) =
     (if js_positive (comparefn x y) then y # js_insert comparefn x ys else x # y # ys)"

definition js_sort :: "('a \<Rightarrow> 'a \<Rightarrow> jsnum) \<Rightarrow> 'a list \<Rightarrow> 'a list" where
  "js_sort comparefn xs = foldr (js_insert comparefn) xs []"

section \<open>Errors\<close>

text \<open>
  Every \<open>throw new Error(message)\<close> of the modelled code is a constructor; a failure of
  an external service carries its message.
\<close>

datatype error =
    VectorsMustHaveSameLength
  | NoEmbeddedRecordsAvailable
  | NoValidTextChunks
  | EmbeddingFailureRateTooHigh nat nat
  | FailedToEmbedText string
  | BatchEmbeddingFailed string
  | KnowledgeManagerWithoutEmbeddings
  | ServiceError string

text \<open>
  \<open>error.message\<close>. The message of \<open>EmbeddingFailureRateTooHigh failureCount n\<close> is
  "Embedding failure rate too high: p% (failureCount/n)."; its interpolated numbers
  stay in the constructor.
\<close>

fun error_message :: "error \<Rightarrow> string" where
  "error_message VectorsMustHaveSameLength = ''Vectors must have the same length''"
| "error_message NoEmbeddedRecordsAvailable = ''No embedded records available''"
| "error_message NoValidTextChunks = ''No valid text chunks found for embedding''"
| "error_message (EmbeddingFailureRateTooHigh failureCount n) =
     ''Embedding failure rate too high''"
| "error_message (FailedToEmbedText m) = ''Failed to embed text: '' @ m"
| "error_message (BatchEmbeddingFailed m) = ''Batch embedding failed: '' @ m"
| "error_message KnowledgeManagerWithoutEmbeddings =
     ''KnowledgeManager must have pre-computed embeddings. Call loadDocumentationWithEmbeddings() first.''"
| "error_message (ServiceError m) = m"

section \<open>Configuration (constants)\<close>

text \<open>
  The functions that read \<open>KNOWLEDGE_CONFIG\<close> take the configuration as an argument, so
  that what is proved of them holds for the values below and for any others.
\<close>

record knowledge_config =
  MAX_CHARS_PER_CHUNK :: nat
  MAX_CHUNKS_PER_DOCUMENT :: nat
  RETRIEVAL_TOP_K :: nat
  RETRIEVAL_THRESHOLD :: real

definition KNOWLEDGE_CONFIG :: knowledge_config where
  "KNOWLEDGE_CONFIG =
     \<lparr>MAX_CHARS_PER_CHUNK = 600, MAX_CHUNKS_PER_DOCUMENT = 1000,
      RETRIEVAL_TOP_K = 5, RETRIEVAL_THRESHOLD = 0.5\<rparr>"

definition EMBEDDER_BATCH_SIZE :: nat where
  "EMBEDDER_BATCH_SIZE = 100"

section \<open>EmbedderService.cosineSimilarity\<close>

text \<open>
  The loop over \<open>i < a.length\<close> accumulating \<open>dotProduct\<close>, \<open>normA\<close> and \<open>normB\<close>; it runs
  only after the length check, so \<open>b ! i\<close> is in range.
\<close>

definition cosine_sums :: "real list \<Rightarrow> real list \<Rightarrow> real \<times> real \<times> real" where
  "cosine_sums a b =
     fold (\<lambda>i (dotProduct, normA, normB).
             (dotProduct + a ! i * b ! i, normA + a ! i * a ! i, normB + b ! i * b ! i))
          [0..<length a] (0, 0, 0)"

definition cosineSimilarity :: "real list \<Rightarrow> real list \<Rightarrow> error + jsnum" where
  "cosineSimilarity a b =
     (if length a \<noteq> length b then Inl VectorsMustHaveSameLength
      else (case cosine_sums a b of
              (dotProduct, normA, normB) \<Rightarrow> Inr (js_div dotProduct (sqrt normA * sqrt normB))))"

section \<open>KnowledgeRetrievalNode.process\<close>

record embedded_record =
  record_text :: jsstring
  embedding :: "real list"

record query_data =
  queryText :: jsstring
  queryEmbedding :: "real list"

text \<open>An element of \<open>similarities\<close>: \<open>{record, similarity, index}\<close>.\<close>

record scored =
  item_record :: jsstring
  similarity :: jsnum
  index :: nat

record retrieval_data =
  retrieved_queryText :: jsstring
  relevantRecords :: "jsstring list"

text \<open>
  The callback of \<open>embeddedRecords.map\<close>: the \<open>catch\<close> turns a failed similarity
  computation into similarity \<open>0\<close>.
\<close>

definition score_record :: "real list \<Rightarrow> embedded_record \<Rightarrow> nat \<Rightarrow> scored" where
  "score_record q r i =
     (case cosineSimilarity q (embedding r) of
        Inr s \<Rightarrow> \<lparr>item_record = record_text r, similarity = s, index = i\<rparr>
      | Inl _ \<Rightarrow> \<lparr>item_record = record_text r, similarity = Num 0, index = i\<rparr>)"

text \<open>
  The arrays of \<open>process\<close>, each a function of the query embedding and the store:
  \<open>similarities\<close>, \<open>sortedSimilarities\<close>, \<open>aboveThreshold\<close> and, before the texts are
  taken from them, the items of \<open>topRecords\<close>.
\<close>

definition similarities :: "real list \<Rightarrow> embedded_record list \<Rightarrow> scored list" where
  "similarities q embeddedRecords =
     map (\<lambda>i. score_record q (embeddedRecords ! i) i) [0..<length embeddedRecords]"

definition sortedSimilarities :: "real list \<Rightarrow> embedded_record list \<Rightarrow> scored list" where
  "sortedSimilarities q embeddedRecords =
     js_sort (\<lambda>a b. js_sub (similarity b) (similarity a)) (similarities q embeddedRecords)"

definition aboveThreshold ::
  "knowledge_config \<Rightarrow> real list \<Rightarrow> embedded_record list \<Rightarrow> scored list" where
  "aboveThreshold cfg q embeddedRecords =
     filter (\<lambda>item. js_ge (similarity item) (RETRIEVAL_THRESHOLD cfg))
       (sortedSimilarities q embeddedRecords)"

definition topItems ::
  "knowledge_config \<Rightarrow> real list \<Rightarrow> embedded_record list \<Rightarrow> scored list" where
  "topItems cfg q embeddedRecords =
     take (RETRIEVAL_TOP_K cfg) (aboveThreshold cfg q embeddedRecords)"

definition process ::
  "knowledge_config \<Rightarrow> embedded_record list \<Rightarrow> query_data \<Rightarrow> error + retrieval_data" where
  "process cfg embeddedRecords queryData =
     (if length embeddedRecords = 0 then Inl NoEmbeddedRecordsAvailable
      else Inr \<lparr>retrieved_queryText = queryText queryData,
                relevantRecords =
                  map item_record (topItems cfg (queryEmbedding queryData) embeddedRecords)\<rparr>)"

text \<open>
  The same callback, arrays and method with the similarity computation as a parameter:
  \<open>sim\<close> stands for \<open>EmbedderService.cosineSimilarity\<close> as the engine evaluates it, in
  double arithmetic, a value of \<open>Inl\<close> for a call that throws. \<open>topItems_of\<close> is what
  \<open>sort\<close>, \<open>filter\<close> and \<open>slice\<close> make of the array \<open>similarities\<close>.
\<close>

definition score_record_with ::
  "(real list \<Rightarrow> real list \<Rightarrow> error + jsnum) \<Rightarrow> real list \<Rightarrow> embedded_record \<Rightarrow> nat \<Rightarrow> scored" where
  "score_record_with sim q r i =
     (case sim q (embedding r) of
        Inr s \<Rightarrow> \<lparr>item_record = record_text r, similarity = s, index = i\<rparr>
      | Inl _ \<Rightarrow> \<lparr>item_record = record_text r, similarity = Num 0, index = i\<rparr>)"

definition similarities_with ::
  "(real list \<Rightarrow> real list \<Rightarrow> error + jsnum) \<Rightarrow> real list \<Rightarrow> embedded_record list
     \<Rightarrow> scored list" where
  "similarities_with sim q embeddedRecords =
     map (\<lambda>i. score_record_with sim q (embeddedRecords ! i) i) [0..<length embeddedRecords]"

definition topItems_of :: "knowledge_config \<Rightarrow> scored list \<Rightarrow> scored list" where
  "topItems_of cfg items =
     take (RETRIEVAL_TOP_K cfg)
       (filter (\<lambda>item. js_ge (similarity item) (RETRIEVAL_THRESHOLD cfg))
          (js_sort (\<lambda>a b. js_sub (similarity b) (similarity a)) items))"

definition process_with ::
  "(real list \<Rightarrow> real list \<Rightarrow> error + jsnum) \<Rightarrow> knowledge_config \<Rightarrow> embedded_record list
     \<Rightarrow> query_data \<Rightarrow> error + retrieval_data" where
  "process_with sim cfg embeddedRecords queryData =
     (if length embeddedRecords = 0 then Inl NoEmbeddedRecordsAvailable
      else Inr \<lparr>retrieved_queryText = queryText queryData,
                relevantRecords =
                  map item_record
                    (topItems_of cfg
                       (similarities_with sim (queryEmbedding queryData) embeddedRecords))\<rparr>)"


section \<open>KnowledgeManager.chunkText\<close>

subsection \<open>\<open>text.match(/[^.!?]+[.!?]+/g) || [text]\<close>\<close>

definition isTerminator :: "jschar \<Rightarrow> bool" where
  "isTerminator c \<longleftrightarrow> c = 0x2E \<or> c = 0x21 \<or> c = 0x3F"

text \<open>
  All matches of the global regular expression, left to right. A match starts at a code
  unit that is none of \<open>.!?\<close>, takes the longest run of such code units and then the
  longest run of \<open>.!?\<close>, which must not be empty. The scan skips code units at which no
  match starts: terminators in front of a match, and a run without a terminator behind
  it, which can only be the end of the text.
\<close>

function match_sentences :: "jsstring \<Rightarrow> jsstring list" where
  "match_sentences txt =
     (if txt = [] then []
      else if isTerminator (hd txt) then match_sentences (tl txt)
      else (let body = takeWhile (\<lambda>c. \<not> isTerminator c) txt;
                rest = dropWhile (\<lambda>c. \<not> isTerminator c) txt
            in if rest = [] then []
               else (body @ takeWhile isTerminator rest)
                      # match_sentences (dropWhile isTerminator rest)))"
  by pat_completeness auto
termination
proof (relation "measure length")
  show "wf (measure length)" by simp
next
  fix s :: jsstring
  assume "s \<noteq> []"
  then show "(tl s, s) \<in> measure length" by (cases s) simp_all
next
  fix s body rest :: jsstring
  assume "s \<noteq> []" and rest: "rest = dropWhile (\<lambda>c. \<not> isTerminator c) s" and "rest \<noteq> []"
  then have "isTerminator (hd rest)"
    using hd_dropWhile [of "\<lambda>c. \<not> isTerminator c" s] by simp
  with \<open>rest \<noteq> []\<close> have "length (dropWhile isTerminator rest) < length rest"
    by (cases rest) (simp_all add: le_imp_less_Suc length_dropWhile_le)
  moreover have "length rest \<le> length s"
    using rest by (simp add: length_dropWhile_le)
  ultimately show "(dropWhile isTerminator rest, s) \<in> measure length" by simp
qed

declare match_sentences.simps [simp del]

text \<open>\<open>match\<close> returns \<open>null\<close> when nothing matches; then the text itself is the one sentence.\<close>

definition sentences :: "jsstring \<Rightarrow> jsstring list" where
  "sentences txt = (case match_sentences txt of [] \<Rightarrow> [txt] | m # ms \<Rightarrow> m # ms)"

subsection \<open>\<open>sentence.split(' ')\<close>\<close>

fun split_on :: "'a \<Rightarrow> 'a list \<Rightarrow> 'a list list" where
  "split_on d [] = [[]]"
| "split_on d (c # cs) =
     (if c = d then [] # split_on d cs
      else (case split_on d cs of w # ws \<Rightarrow> (c # w) # ws | [] \<Rightarrow> [[c]]))"

subsection \<open>The two loops\<close>

text \<open>
  The state of a loop is the array \<open>chunks\<close> and the running string (\<open>tempChunk\<close> in
  the loop over the words, \<open>currentChunk\<close> in the loop over the sentences). An empty
  string is falsy.
\<close>

fun word_loop ::
  "nat \<Rightarrow> jsstring list \<Rightarrow> jsstring list \<times> jsstring \<Rightarrow> jsstring list \<times> jsstring" where
  "word_loop maxChars [] (chunks, tempChunk) = (chunks, tempChunk)"
| "word_loop maxChars (word # ws) (chunks, tempChunk) =
     (if length (tempChunk @ [SPACE] @ word) \<le> maxChars
      then word_loop maxChars ws
             (chunks, if tempChunk \<noteq> [] then tempChunk @ [SPACE] @ word else word)
      else word_loop maxChars ws
             (if tempChunk \<noteq> [] then chunks @ [trim tempChunk] else chunks, word))"

fun sentence_loop ::
  "nat \<Rightarrow> jsstring list \<Rightarrow> jsstring list \<times> jsstring \<Rightarrow> jsstring list \<times> jsstring" where
  "sentence_loop maxChars [] (chunks, currentChunk) = (chunks, currentChunk)"
| "sentence_loop maxChars (sentence # rest) (chunks, currentChunk) =
     (if length (currentChunk @ sentence) \<le> maxChars
      then sentence_loop maxChars rest (chunks, currentChunk @ sentence)
      else
        (let chunks1 = (if currentChunk \<noteq> [] then chunks @ [trim currentChunk] else chunks)
         in if length sentence > maxChars
            then (case word_loop maxChars (split_on SPACE sentence) (chunks1, []) of
                    (chunks2, tempChunk) \<Rightarrow>
                      sentence_loop maxChars rest
                        (chunks2, if tempChunk \<noteq> [] then tempChunk else currentChunk))
            else sentence_loop maxChars rest (chunks1, sentence)))"

definition chunkText :: "jsstring \<Rightarrow> nat \<Rightarrow> jsstring list" where
  "chunkText txt maxChars =
     (case sentence_loop maxChars (sentences txt) ([], []) of
        (chunks, currentChunk) \<Rightarrow>
          if currentChunk \<noteq> [] then chunks @ [trim currentChunk] else chunks)"


section \<open>EmbedderService\<close>

text \<open>
  The remote embedder is outside the repository: \<open>createRemote\<close> is the outcome of
  \<open>TextEmbedderFactory.createRemote\<close> (\<open>Some\<close> error when it throws), \<open>embed_remote\<close> and
  \<open>embedBatch_remote\<close> are the calls \<open>embedder.embed\<close> and \<open>embedder.embedBatch\<close>. An
  element of a returned batch may be missing (\<open>None\<close>: \<open>undefined\<close> or \<open>null\<close>).
\<close>

record embedder_env =
  createRemote :: "error option"
  embed_remote :: "jsstring \<Rightarrow> error + real list"
  embedBatch_remote :: "jsstring list \<Rightarrow> error + real list option list"

record embedder_service =
  initialized :: bool

definition initialize :: "embedder_env \<Rightarrow> embedder_service \<Rightarrow> error + embedder_service" where
  "initialize env svc =
     (if initialized svc then Inr svc
      else (case createRemote env of
              Some e \<Rightarrow> Inl e
            | None \<Rightarrow> Inr (svc\<lparr>initialized := True\<rparr>)))"

definition embedSingle ::
  "embedder_env \<Rightarrow> embedder_service \<Rightarrow> jsstring \<Rightarrow> error + embedder_service \<times> real list" where
  "embedSingle env svc txt =
     (case (if \<not> initialized svc then initialize env svc else Inr svc) of
        Inl e \<Rightarrow> Inl e
      | Inr svc' \<Rightarrow>
          (case embed_remote env txt of
             Inl e \<Rightarrow> Inl (FailedToEmbedText (error_message e))
           | Inr v \<Rightarrow> Inr (svc', v)))"

text \<open>
  The loop \<open>for (i = 0; i < texts.length; i += BATCH_SIZE)\<close> of \<open>embedBatch\<close>: the slices
  are embedded one after the other, the first failing call aborts.
\<close>

function embed_batches :: "embedder_env \<Rightarrow> jsstring list \<Rightarrow> error + real list option list" where
  "embed_batches env texts =
     (if texts = [] then Inr []
      else (case embedBatch_remote env (take EMBEDDER_BATCH_SIZE texts) of
              Inl e \<Rightarrow> Inl (BatchEmbeddingFailed (error_message e))
            | Inr batchEmbeddings \<Rightarrow>
                (case embed_batches env (drop EMBEDDER_BATCH_SIZE texts) of
                   Inl e \<Rightarrow> Inl e
                 | Inr allEmbeddings \<Rightarrow> Inr (batchEmbeddings @ allEmbeddings))))"
  by pat_completeness auto
termination
  by (relation "measure (\<lambda>(env, texts). length texts)") (simp_all add: EMBEDDER_BATCH_SIZE_def)

declare embed_batches.simps [simp del]

definition embedBatch ::
  "embedder_env \<Rightarrow> embedder_service \<Rightarrow> jsstring list
     \<Rightarrow> error + embedder_service \<times> real list option list" where
  "embedBatch env svc texts =
     (case (if \<not> initialized svc then initialize env svc else Inr svc) of
        Inl e \<Rightarrow> Inl e
      | Inr svc' \<Rightarrow>
          (case embed_batches env texts of
             Inl e \<Rightarrow> Inl e
           | Inr embeddings \<Rightarrow> Inr (svc', embeddings)))"

section \<open>KnowledgeManager.loadDocumentationWithEmbeddings\<close>

record scraped_page =
  url :: jsstring
  title :: jsstring
  content :: jsstring

record knowledge_manager =
  embeddedRecords :: "embedded_record list"
  embedderService :: embedder_service

text \<open>\<open>xs[i]\<close> on an array whose elements may be missing: \<open>undefined\<close> out of range.\<close>

definition element_at :: "'a option list \<Rightarrow> nat \<Rightarrow> 'a option" where
  "element_at xs i = (if i < length xs then xs ! i else None)"

definition collect_texts :: "scraped_page list \<Rightarrow> jsstring list" where
  "collect_texts pages =
     concat (map (\<lambda>page. chunkText (content page) (MAX_CHARS_PER_CHUNK KNOWLEDGE_CONFIG)) pages)"

definition validTexts :: "scraped_page list \<Rightarrow> jsstring list" where
  "validTexts pages = filter (\<lambda>t. length (trim t) \<ge> 10) (collect_texts pages)"

text \<open>
  The loop over \<open>i < validTexts.length\<close>: its state is \<open>this.embeddedRecords\<close> and
  \<open>failureCount\<close>.
\<close>

definition record_step ::
  "jsstring list \<Rightarrow> real list option list \<Rightarrow> nat \<Rightarrow> embedded_record list \<times> nat
     \<Rightarrow> embedded_record list \<times> nat" where
  "record_step texts embeddings i st =
     (case st of (records, failureCount) \<Rightarrow>
        (case element_at embeddings i of
           Some e \<Rightarrow>
             if length e > 0
             then (records @ [\<lparr>record_text = texts ! i, embedding = e\<rparr>], failureCount)
             else (records, failureCount + 1)
         | None \<Rightarrow> (records, failureCount + 1)))"

definition build_records ::
  "jsstring list \<Rightarrow> real list option list \<Rightarrow> embedded_record list \<times> nat" where
  "build_records texts embeddings =
     fold (record_step texts embeddings) [0..<length texts] ([], 0)"

text \<open>
  The method returns the manager as the call leaves it, with the error it threw or
  \<open>()\<close>. \<open>failureRate\<close> is a quotient of two array lengths, compared with \<open>0.5\<close>; it is
  computed exactly.
\<close>

definition loadDocumentationWithEmbeddings ::
  "embedder_env \<Rightarrow> knowledge_manager \<Rightarrow> scraped_page list
     \<Rightarrow> knowledge_manager \<times> (error + unit)" where
  "loadDocumentationWithEmbeddings env km pages =
     (let km1 = km\<lparr>embeddedRecords := []\<rparr> in
      case initialize env (embedderService km1) of
        Inl e \<Rightarrow> (km1, Inl e)
      | Inr svc \<Rightarrow>
          (let km2 = km1\<lparr>embedderService := svc\<rparr> in
           if length (validTexts pages) = 0 then (km2, Inl NoValidTextChunks)
           else
             (case embedBatch env svc (validTexts pages) of
                Inl e \<Rightarrow> (km2, Inl e)
              | Inr (svc', embeddings) \<Rightarrow>
                  (case build_records (validTexts pages) embeddings of
                     (records, failureCount) \<Rightarrow>
                       (let km3 = km2\<lparr>embeddedRecords := records, embedderService := svc'\<rparr>;
                            failureRate = real failureCount / real (length (validTexts pages))
                        in if failureRate > 0.5
                           then (km3, Inl (EmbeddingFailureRateTooHigh failureCount
                                             (length (validTexts pages))))
                           else (km3, Inr ()))))))"

definition getEmbeddedRecords :: "knowledge_manager \<Rightarrow> embedded_record list" where
  "getEmbeddedRecords km = embeddedRecords km"

definition hasEmbeddings :: "knowledge_manager \<Rightarrow> bool" where
  "hasEmbeddings km \<longleftrightarrow> length (embeddedRecords km) > 0"


section \<open>InworldGraph and MessageHandler.handleChat\<close>

text \<open>
  The graph built by \<open>InworldGraph.create\<close> is the chain input, \<open>QueryEmbedderNode\<close>,
  \<open>KnowledgeRetrievalNode\<close>, prompt rendering, LLM. It keeps the array of records the
  manager held when it was created. Prompt rendering and the LLM are outside the
  repository: \<open>generate\<close> is their outcome on the retrieved records. A node that throws
  is taken to fail the execution.
\<close>

record inworld_graph =
  graph_records :: "embedded_record list"
  graph_embedder :: embedder_service

datatype graph_result =
    ContentStream "jsstring list"
  | TextStream "jsstring list"
  | Content jsstring
  | StringData jsstring
  | OtherData

record chat_env =
  chat_embedder :: embedder_env
  generate :: "retrieval_data \<Rightarrow> error + graph_result list"

definition create :: "embedder_env \<Rightarrow> knowledge_manager \<Rightarrow> error + inworld_graph" where
  "create env knowledgeManager =
     (if \<not> hasEmbeddings knowledgeManager then Inl KnowledgeManagerWithoutEmbeddings
      else (case initialize env \<lparr>initialized = False\<rparr> of
              Inl e \<Rightarrow> Inl e
            | Inr svc \<Rightarrow>
                Inr \<lparr>graph_records = getEmbeddedRecords knowledgeManager,
                     graph_embedder = svc\<rparr>))"

definition processQuery :: "chat_env \<Rightarrow> inworld_graph \<Rightarrow> jsstring \<Rightarrow> error + graph_result list" where
  "processQuery env g query =
     (case embedSingle (chat_embedder env) (graph_embedder g) (trim query) of
        Inl e \<Rightarrow> Inl e
      | Inr (svc, v) \<Rightarrow>
          (case process KNOWLEDGE_CONFIG (graph_records g)
                  \<lparr>queryText = query, queryEmbedding = v\<rparr> of
             Inl e \<Rightarrow> Inl e
           | Inr retrievalData \<Rightarrow> generate env retrievalData))"

datatype role = User | Assistant | System

text \<open>A message of the conversation; its \<open>id\<close> and \<open>timestamp\<close> are left out.\<close>

record message =
  msg_role :: role
  msg_content :: jsstring

record conn_state =
  messages :: "message list"
  knowledgeLoaded :: bool

text \<open>\<open>ws_open\<close> is \<open>ws.readyState === WebSocket.OPEN\<close>, taken as fixed during one call.\<close>

record connection =
  ws_open :: bool
  conn_state :: conn_state
  sessionId :: jsstring

text \<open>
  The messages sent to the client, by \<open>type\<close>: \<open>error\<close> with its text, \<open>message_start\<close>,
  \<open>message_chunk\<close>, \<open>message\<close> with their content, the \<open>message\<close> "I couldn't find any
  information about that in the current documentation. ..." and \<open>message_end\<close>.
\<close>

datatype event =
    ErrorEvent string
  | MessageStart jsstring
  | MessageChunk jsstring
  | Message jsstring
  | NotFoundMessage
  | MessageEnd

text \<open>What a call does to the outside: messages sent, and queries run on the graph.\<close>

datatype effect = Sent event | QueryProcessed jsstring

record message_handler =
  graph :: "inworld_graph option"

definition sendMessage :: "connection \<Rightarrow> event \<Rightarrow> effect list" where
  "sendMessage c ev = (if ws_open c then [Sent ev] else [])"

text \<open>The handlers of \<open>processResponse\<close>; the state is \<open>fullResponse\<close>, \<open>isFirstChunk\<close> and
  the messages sent so far.\<close>

definition relay_chunk ::
  "connection \<Rightarrow> jsstring \<Rightarrow> jsstring \<times> bool \<times> effect list \<Rightarrow> jsstring \<times> bool \<times> effect list" where
  "relay_chunk c chunk st =
     (case st of (fullResponse, isFirstChunk, sent) \<Rightarrow>
        if chunk \<noteq> []
        then (fullResponse @ chunk, False,
              sent @ sendMessage c (if isFirstChunk then MessageStart chunk else MessageChunk chunk))
        else (fullResponse, isFirstChunk, sent))"

fun relay_result ::
  "connection \<Rightarrow> graph_result \<Rightarrow> jsstring \<times> bool \<times> effect list \<Rightarrow> jsstring \<times> bool \<times> effect list" where
  "relay_result c (ContentStream chunks) st = fold (relay_chunk c) chunks st"
| "relay_result c (TextStream chunks) st = fold (relay_chunk c) chunks st"
| "relay_result c (Content data) (fullResponse, isFirstChunk, sent) =
     (if data \<noteq> []
      then (fullResponse @ data, isFirstChunk, sent @ sendMessage c (Message data))
      else (fullResponse, isFirstChunk, sent))"
| "relay_result c (StringData data) (fullResponse, isFirstChunk, sent) =
     (if data = []
      then (fullResponse, isFirstChunk, sent @ sendMessage c NotFoundMessage)
      else (fullResponse @ data, isFirstChunk, sent @ sendMessage c (Message data)))"
| "relay_result c OtherData st = st"

definition chat_error_text :: "error \<Rightarrow> string" where
  "chat_error_text e =
     (if js_includes (error_message e) ''blocked by the safety filters''
      then ''Your question was blocked by safety filters. Please try rephrasing your question.''
      else ''Failed to process your question. Please try again.'')"

definition handleChat ::
  "chat_env \<Rightarrow> message_handler \<Rightarrow> connection \<Rightarrow> jsstring \<Rightarrow> connection \<times> effect list" where
  "handleChat env handler c msg =
     (case graph handler of
        None \<Rightarrow>
          (c, sendMessage c
                (ErrorEvent ''Please load documentation first before asking questions.''))
      | Some g \<Rightarrow>
          if \<not> knowledgeLoaded (conn_state c)
          then (c, sendMessage c
                     (ErrorEvent ''Please load documentation first before asking questions.''))
          else
            (let c1 = c\<lparr>conn_state := (conn_state c)
                        \<lparr>messages := messages (conn_state c)
                                        @ [\<lparr>msg_role = User, msg_content = msg\<rparr>]\<rparr>\<rparr>
             in case processQuery env g msg of
                  Inl e \<Rightarrow>
                    (c1, QueryProcessed msg # sendMessage c1 (ErrorEvent (chat_error_text e)))
                | Inr results \<Rightarrow>
                    (case fold (relay_result c1) results ([], True, []) of
                       (fullResponse, isFirstChunk, sent) \<Rightarrow>
                         if fullResponse \<noteq> []
                         then (c1\<lparr>conn_state := (conn_state c1)
                                    \<lparr>messages := messages (conn_state c1)
                                       @ [\<lparr>msg_role = Assistant, msg_content = fullResponse\<rparr>]\<rparr>\<rparr>,
                               QueryProcessed msg # sent @ sendMessage c1 MessageEnd)
                         else (c1, QueryProcessed msg # sent))))"


section \<open>DocumentationScraper.crawlLinks\<close>

text \<open>
  The network and the HTML parser are outside the repository. \<open>fetch\<close> is \<open>axios.get\<close>
  followed by the parse: it fails, or gives the text of the first \<open>h1\<close>, the text of
  \<open>title\<close>, the extracted documentation text and the \<open>href\<close> attributes of the page's
  anchors. \<open>hostname\<close> is \<open>new URL(url).hostname\<close> and \<open>resolve\<close> is
  \<open>new URL(href, url).toString()\<close>; both throw on some inputs (\<open>None\<close>).
\<close>

record document =
  doc_h1 :: jsstring
  doc_title :: jsstring
  doc_content :: jsstring
  doc_hrefs :: "jsstring list"

record web_env =
  fetch :: "jsstring \<Rightarrow> error + document"
  hostname :: "jsstring \<Rightarrow> jsstring option"
  resolve :: "jsstring \<Rightarrow> jsstring \<Rightarrow> jsstring option"

definition CONCURRENT_LIMIT :: nat where
  "CONCURRENT_LIMIT = 5"

definition SCRAPER_MAX_PAGES :: nat where
  "SCRAPER_MAX_PAGES = 100"

text \<open>The callback of \<open>originalDoc('a[href]').each\<close>: the link an anchor contributes, if any.\<close>

definition link_of ::
  "web_env \<Rightarrow> jsstring set \<Rightarrow> jsstring \<Rightarrow> jsstring \<Rightarrow> jsstring \<Rightarrow> jsstring list" where
  "link_of env visited domain pageUrl href =
     (if href = [] then []
      else
        (case (if startsWith href (js ''http'') then Some href
               else if startsWith href (js ''/'') then Some (js ''https://'' @ domain @ href)
               else if \<not> startsWith href (js ''#'') then resolve env href pageUrl
               else None) of
           None \<Rightarrow> []
         | Some absoluteUrl \<Rightarrow>
             if js_includes absoluteUrl domain \<and> absoluteUrl \<notin> visited
                \<and> js_includes absoluteUrl (js ''/docs/'')
                \<and> \<not> js_includes absoluteUrl (js ''/login'')
                \<and> \<not> js_includes absoluteUrl (js ''redirect='')
             then [absoluteUrl] else []))"

definition fetchPageWithLinks ::
  "web_env \<Rightarrow> jsstring set \<Rightarrow> jsstring \<Rightarrow> scraped_page option \<times> jsstring list" where
  "fetchPageWithLinks env visited pageUrl =
     (case fetch env pageUrl of
        Inl e \<Rightarrow> (None, [])
      | Inr doc \<Rightarrow>
          (case hostname env pageUrl of
             None \<Rightarrow> (None, [])
           | Some domain \<Rightarrow>
               (let pageTitle = trim (if doc_h1 doc \<noteq> [] then doc_h1 doc
                                      else if doc_title doc \<noteq> [] then doc_title doc
                                      else js ''Untitled'');
                    links = concat (map (link_of env visited domain pageUrl) (doc_hrefs doc))
                in if length (doc_content doc) < 50 then (None, links)
                   else (Some \<lparr>url = pageUrl, title = pageTitle, content = doc_content doc\<rparr>,
                         links))))"

text \<open>
  The state of the \<open>while\<close> loop: \<open>pages\<close>, \<open>toCrawl\<close> and \<open>this.visitedUrls\<close>. \<open>dispatched\<close>
  is not a variable of the code: it logs every call of \<open>fetchPageWithLinks\<close>, in order,
  with whether its URL was in \<open>visitedUrls\<close> when the call was made.
\<close>

record crawl_state =
  pages :: "scraped_page list"
  toCrawl :: "jsstring list"
  visitedUrls :: "jsstring set"
  dispatched :: "(jsstring \<times> bool) list"

text \<open>\<open>if (!this.visitedUrls.has(link) && !toCrawl.includes(link)) toCrawl.push(link)\<close>.\<close>

definition enqueue :: "jsstring set \<Rightarrow> jsstring \<Rightarrow> jsstring list \<Rightarrow> jsstring list" where
  "enqueue visited link queue =
     (if link \<notin> visited \<and> link \<notin> set queue then queue @ [link] else queue)"

text \<open>The body of \<open>for (const result of results)\<close>; every promise is fulfilled, since
  \<open>fetchPageWithLinks\<close> catches what its body throws.\<close>

definition process_result ::
  "jsstring set \<Rightarrow> scraped_page option \<times> jsstring list
     \<Rightarrow> scraped_page list \<times> jsstring list \<Rightarrow> scraped_page list \<times> jsstring list" where
  "process_result visited result st =
     (case (result, st) of
        ((page, links), (ps, queue)) \<Rightarrow>
          ((case page of Some p \<Rightarrow> ps @ [p] | None \<Rightarrow> ps),
           fold (enqueue visited) links queue))"

text \<open>
  One iteration of the \<open>while\<close> loop. The fetches of a batch run concurrently, after
  the whole batch was marked visited; none of them changes \<open>visitedUrls\<close>. Under the
  loop condition \<open>remainingSlots\<close> is positive.
\<close>

definition crawl_step :: "web_env \<Rightarrow> nat \<Rightarrow> crawl_state \<Rightarrow> crawl_state" where
  "crawl_step env maxPages st =
     (let batch = take CONCURRENT_LIMIT (toCrawl st);
          queue = drop CONCURRENT_LIMIT (toCrawl st);
          remainingSlots = maxPages - length (pages st);
          urlsToProcess = take remainingSlots batch;
          visited = visitedUrls st \<union> set urlsToProcess;
          results = map (fetchPageWithLinks env visited) urlsToProcess
      in case fold (process_result visited) results (pages st, queue) of
           (ps, queue') \<Rightarrow>
             \<lparr>pages = ps, toCrawl = queue', visitedUrls = visited,
              dispatched = dispatched st @ map (\<lambda>u. (u, u \<in> visited)) urlsToProcess\<rparr>)"

text \<open>
  The \<open>while\<close> loop. A crawl need not end (a site can serve new links for ever), so the
  loop takes a bound on its iterations and returns \<open>None\<close> when the bound is reached before
  the loop condition fails.
\<close>

fun crawl_loop :: "nat \<Rightarrow> web_env \<Rightarrow> nat \<Rightarrow> crawl_state \<Rightarrow> crawl_state option" where
  "crawl_loop 0 env maxPages st = None"
| "crawl_loop (Suc fuel) env maxPages st =
     (if length (toCrawl st) > 0 \<and> length (pages st) < maxPages
      then crawl_loop fuel env maxPages (crawl_step env maxPages st)
      else Some st)"

definition crawlLinks ::
  "nat \<Rightarrow> web_env \<Rightarrow> jsstring set \<Rightarrow> jsstring \<Rightarrow> nat \<Rightarrow> crawl_state option" where
  "crawlLinks fuel env visited baseUrl maxPages =
     crawl_loop fuel env maxPages
       \<lparr>pages = [], toCrawl = [baseUrl], visitedUrls = visited, dispatched = []\<rparr>"

text \<open>\<open>scrapeDocumentation\<close> clears \<open>visitedUrls\<close> and crawls up to \<open>SCRAPER_MAX_PAGES\<close>.\<close>

definition scrapeDocumentation :: "nat \<Rightarrow> web_env \<Rightarrow> jsstring \<Rightarrow> scraped_page list option" where
  "scrapeDocumentation fuel env docUrl =
     map_option pages (crawlLinks fuel env {} docUrl SCRAPER_MAX_PAGES)"

section \<open>Notions used in the statements\<close>

text \<open>The Euclidean norm of a vector, \<open>x > y\<close> on numbers, and the ranking order of scored
  records: higher similarity first, the lower index first among equal similarities.\<close>

definition vector_norm :: "real list \<Rightarrow> real" where
  "vector_norm v = sqrt (\<Sum>i<length v. v ! i * v ! i)"

definition js_gt :: "jsnum \<Rightarrow> jsnum \<Rightarrow> bool" where
  "js_gt x y \<longleftrightarrow> js_positive (js_sub x y)"

definition ranks_before :: "scored \<Rightarrow> scored \<Rightarrow> bool" where
  "ranks_before a b \<longleftrightarrow>
     js_gt (similarity a) (similarity b) \<or> (similarity a = similarity b \<and> index a < index b)"

section \<open>Example inputs\<close>

definition scenario_E_store :: "embedded_record list" where
  "scenario_E_store =
     [\<lparr>record_text = js ''A'', embedding = [9, 3, 3, 1]\<rparr>,
      \<lparr>record_text = js ''B'', embedding = [7, 7, 1, 1]\<rparr>,
      \<lparr>record_text = js ''C'', embedding = [4, 8, 4, 2]\<rparr>,
      \<lparr>record_text = js ''D'', embedding = [3, 9, 3, 1]\<rparr>]"

definition scenario_E_config :: knowledge_config where
  "scenario_E_config = KNOWLEDGE_CONFIG\<lparr>RETRIEVAL_TOP_K := 3\<rparr>"

definition zero_norm_store :: "embedded_record list" where
  "zero_norm_store =
     [\<lparr>record_text = js ''a'', embedding = [3, 4]\<rparr>,
      \<lparr>record_text = js ''b'', embedding = [0, 0]\<rparr>,
      \<lparr>record_text = js ''c'', embedding = [4, 3]\<rparr>]"

definition tie_store :: "embedded_record list" where
  "tie_store =
     [\<lparr>record_text = js ''a'', embedding = [3, 4]\<rparr>,
      \<lparr>record_text = js ''b'', embedding = [1, 0]\<rparr>,
      \<lparr>record_text = js ''c'', embedding = [2, 0]\<rparr>]"

definition mismatch_store :: "embedded_record list" where
  "mismatch_store =
     [\<lparr>record_text = js ''a'', embedding = [3, 4]\<rparr>,
      \<lparr>record_text = js ''m'', embedding = [1, 2, 2]\<rparr>]"

definition NOT_READY :: event where
  "NOT_READY = ErrorEvent ''Please load documentation first before asking questions.''"

definition idle_connection :: connection where
  "idle_connection =
     \<lparr>ws_open = True, conn_state = \<lparr>messages = [], knowledgeLoaded = False\<rparr>,
      sessionId = js ''s1''\<rparr>"

definition example_embedder_env :: embedder_env where
  "example_embedder_env =
     \<lparr>createRemote = None,
      embed_remote = (\<lambda>t. Inr [1, 0]),
      embedBatch_remote = (\<lambda>ts. Inr (map (\<lambda>t. Some [1, 0]) ts))\<rparr>"

definition example_chat_env :: chat_env where
  "example_chat_env =
     \<lparr>chat_embedder = example_embedder_env,
      generate = (\<lambda>retrievalData. Inr [StringData (concat (relevantRecords retrievalData))])\<rparr>"

definition loaded_graph :: inworld_graph where
  "loaded_graph = \<lparr>graph_records = mismatch_store, graph_embedder = \<lparr>initialized = True\<rparr>\<rparr>"

text \<open>
  For the population of the store: whether index \<open>i\<close> of the returned embeddings holds a
  non-empty vector, the number of indices below \<open>n\<close> that do not, and the chunk texts
  zipped positionally with the embeddings that do.
\<close>

definition embedded_ok :: "real list option list \<Rightarrow> nat \<Rightarrow> bool" where
  "embedded_ok embeddings i \<longleftrightarrow>
     (case element_at embeddings i of Some e \<Rightarrow> e \<noteq> [] | None \<Rightarrow> False)"

definition failures :: "real list option list \<Rightarrow> nat \<Rightarrow> nat" where
  "failures embeddings n = length (filter (\<lambda>i. \<not> embedded_ok embeddings i) [0..<n])"

definition zipped_records :: "jsstring list \<Rightarrow> real list option list \<Rightarrow> embedded_record list" where
  "zipped_records texts embeddings =
     map (\<lambda>i. \<lparr>record_text = texts ! i, embedding = the (element_at embeddings i)\<rparr>)
       (filter (embedded_ok embeddings) [0..<length texts])"

text \<open>Pages, managers and embedding services of the examples.\<close>

definition page_of :: "jsstring \<Rightarrow> scraped_page" where
  "page_of c = \<lparr>url = [], title = [], content = c\<rparr>"

definition twelve_pages :: "scraped_page list" where
  "twelve_pages = map (\<lambda>s. page_of (js s))
     [''Page zero.'', ''Page one..'', ''Tiny.'', ''Page two..'', ''Page three'', ''Page four.'',
      ''Page five.'', ''Too short'', ''Page six..'', ''Page seven'', ''Page eight'', ''Page nine.'']"

definition short_pages :: "scraped_page list" where
  "short_pages = map (\<lambda>s. page_of (js s)) [''Tiny.'', ''Too short'']"

definition three_pages :: "scraped_page list" where
  "three_pages = map (\<lambda>s. page_of (js s))
     [''Embeddings convert text into dense numeric vectors.'',
      ''The crawler follows documentation links in batches.'',
      ''Retrieval ranks stored chunks by cosine similarity.'']"

definition new_manager :: knowledge_manager where
  "new_manager = \<lparr>embeddedRecords = [], embedderService = \<lparr>initialized = False\<rparr>\<rparr>"

text \<open>Embedding services that answer every batch with a fixed array.\<close>

definition answering :: "real list option list \<Rightarrow> embedder_env" where
  "answering embeddings =
     \<lparr>createRemote = None,
      embed_remote = (\<lambda>t. Inr [1, 0]),
      embedBatch_remote = (\<lambda>ts. Inr embeddings)\<rparr>"

definition six_failures :: "real list option list" where
  "six_failures = [Some [1, 0], Some [0, 1], Some [1, 1], Some [2, 1], None, Some [], None, None]"

definition four_failures :: "real list option list" where
  "four_failures =
     [Some [1, 0], Some [0, 1], Some [1, 1], Some [2, 1], Some [1, 2], Some [2, 2], None, Some [], None]"

section \<open>Notions used in the statements about the chunker\<close>



definition sentence_words :: "jsstring \<Rightarrow> jsstring set" where
  "sentence_words txt = (\<Union>s\<in>set (sentences txt). set (split_on SPACE s))"




definition all_terminators :: "jsstring \<Rightarrow> bool" where
  "all_terminators s \<longleftrightarrow> (\<forall>c\<in>set s. isTerminator c)"

definition no_terminators :: "jsstring \<Rightarrow> bool" where
  "no_terminators s \<longleftrightarrow> (\<forall>c\<in>set s. \<not> isTerminator c)"

definition is_sentence :: "jsstring \<Rightarrow> bool" where
  "is_sentence s \<longleftrightarrow>
     (\<exists>body terms. s = body @ terms \<and> body \<noteq> [] \<and> terms \<noteq> []
        \<and> no_terminators body \<and> all_terminators terms)"

text \<open>
  The greedy packing in the words of the specification, for comparison with the loop of
  the code: accumulate sentences into a running chunk while it stays within the limit;
  when appending would overflow, flush the running chunk (trimmed) and start a new one
  with the next sentence; flush the last running chunk.
\<close>

definition flush :: "jsstring \<Rightarrow> jsstring list" where
  "flush running = (if running \<noteq> [] then [trim running] else [])"

fun greedy_pack :: "nat \<Rightarrow> jsstring \<Rightarrow> jsstring list \<Rightarrow> jsstring list" where
  "greedy_pack maxChars running [] = flush running"
| "greedy_pack maxChars running (s # ss) =
     (if length (running @ s) \<le> maxChars then greedy_pack maxChars (running @ s) ss
      else flush running @ greedy_pack maxChars s ss)"

definition ends_with_terminator :: "jsstring \<Rightarrow> bool" where
  "ends_with_terminator x \<longleftrightarrow> x \<noteq> [] \<and> isTerminator (last x)"

text \<open>Terminators first, then none (\<open>T*N*\<close>); and the other way round (\<open>N*T*\<close>).\<close>

definition tn :: "jsstring \<Rightarrow> bool" where
  "tn x \<longleftrightarrow> no_terminators (dropWhile isTerminator x)"

definition nt :: "jsstring \<Rightarrow> bool" where
  "nt x \<longleftrightarrow> all_terminators (dropWhile (\<lambda>c. \<not> isTerminator c) x)"

text \<open>What the loops keep true of a running string, and of a chunk.\<close>

definition run_ok :: "nat \<Rightarrow> jsstring \<Rightarrow> bool" where
  "run_ok m x \<longleftrightarrow>
     (length x \<le> m \<and> (ends_with_terminator x \<or> tn x))
     \<or> (m < length x \<and> SPACE \<notin> set x \<and> (nt x \<or> tn x))"

definition ok_chunk :: "nat \<Rightarrow> jsstring \<Rightarrow> bool" where
  "ok_chunk m c \<longleftrightarrow> trim c = c \<and> run_ok m c"

text \<open>The words of a sentence: all but the last have no terminator, the last ends with
  the terminators of the sentence.\<close>

definition sentence_word_list :: "jsstring list \<Rightarrow> bool" where
  "sentence_word_list ws \<longleftrightarrow>
     ws \<noteq> [] \<and> (\<forall>w\<in>set (butlast ws). no_terminators w) \<and> nt (last ws)
     \<and> ends_with_terminator (last ws) \<and> (\<forall>w\<in>set ws. SPACE \<notin> set w)"

definition cur_ok :: "nat \<Rightarrow> jsstring \<Rightarrow> bool" where
  "cur_ok m cur \<longleftrightarrow> cur = [] \<or> (ends_with_terminator cur \<and> run_ok m cur)"

section \<open>Notions used in the statements about the crawler\<close>

text \<open>
  What holds of the state of a crawl at every test of the loop condition: no URL was
  dispatched twice, every dispatched URL was marked visited at its dispatch and still
  is, the queue has no duplicates and nothing visited, the pages are at most
  \<open>maxPages\<close>, they have different URLs, and each comes from a dispatched URL.
\<close>

definition crawl_inv :: "nat \<Rightarrow> crawl_state \<Rightarrow> bool" where
  "crawl_inv maxPages st \<longleftrightarrow>
     distinct (map fst (dispatched st))
     \<and> (\<forall>d\<in>set (dispatched st). snd d)
     \<and> fst ` set (dispatched st) \<subseteq> visitedUrls st
     \<and> distinct (toCrawl st)
     \<and> set (toCrawl st) \<inter> visitedUrls st = {}
     \<and> length (pages st) \<le> maxPages
     \<and> distinct (map url (pages st))
     \<and> url ` set (pages st) \<subseteq> fst ` set (dispatched st)"

text \<open>A site is within \<open>U\<close> when every link that a fetch returns is in \<open>U\<close>.\<close>

definition site_within :: "web_env \<Rightarrow> jsstring set \<Rightarrow> bool" where
  "site_within env U \<longleftrightarrow> (\<forall>V u. set (snd (fetchPageWithLinks env V u)) \<subseteq> U)"

text \<open>
  A site of three documentation URLs for the examples: \<open>a\<close> links to \<open>b\<close> twice, to itself,
  to a login page and to a fragment; \<open>b\<close> is too short to be a page and links to \<open>a\<close> and
  \<open>c\<close>; fetching \<open>c\<close> fails.
\<close>

definition page_a :: jsstring where "page_a = js ''https://d.io/docs/a''"
definition page_b :: jsstring where "page_b = js ''https://d.io/docs/b''"
definition page_c :: jsstring where "page_c = js ''https://d.io/docs/c''"

definition example_web :: web_env where
  "example_web =
     \<lparr>fetch = (\<lambda>u.
        if u = page_a
        then Inr \<lparr>doc_h1 = js '' Intro '', doc_title = js ''Docs'',
                  doc_content = replicate 60 0x78,
                  doc_hrefs = [js ''/docs/b'', js ''/docs/a'', js ''/login'', js ''#top'',
                               js ''https://d.io/docs/b'']\<rparr>
        else if u = page_b
        then Inr \<lparr>doc_h1 = [], doc_title = [], doc_content = js ''short'',
                  doc_hrefs = [js ''/docs/a'', js ''/docs/c'']\<rparr>
        else Inl (ServiceError ''Request failed with status code 404'')),
      hostname = (\<lambda>u. Some (js ''d.io'')),
      resolve = (\<lambda>href base. None)\<rparr>"

definition example_crawl_end :: crawl_state where
  "example_crawl_end =
     \<lparr>pages = [\<lparr>url = page_a, title = js ''Intro'', content = replicate 60 0x78\<rparr>],
      toCrawl = [],
      visitedUrls = {page_a, page_b, page_c},
      dispatched = [(page_a, True), (page_b, True), (page_c, True)]\<rparr>"

section \<open>Retrieval: cosine similarity and ranking\<close>

lemma cosine_sums_fold:
  "fold (\<lambda>i (dotProduct, normA, normB).
             (dotProduct + a ! i * b ! i, normA + a ! i * a ! i, normB + b ! i * b ! i))
          [0..<n] (d, na, nb) =
   (d + (\<Sum>i<n. a ! i * b ! i), na + (\<Sum>i<n. a ! i * a ! i), nb + (\<Sum>i<n. b ! i * b ! i))"
  by (induction n arbitrary: d na nb) (simp_all add: algebra_simps)

lemma cosine_sums_eq:
  "cosine_sums a b =
     ((\<Sum>i<length a. a ! i * b ! i), (\<Sum>i<length a. a ! i * a ! i), (\<Sum>i<length a. b ! i * b ! i))"
  by (simp add: cosine_sums_def cosine_sums_fold)

lemma vector_norm_zero_iff: "vector_norm v = 0 \<longleftrightarrow> (\<forall>x\<in>set v. x = 0)"
proof -
  have "(\<Sum>i<length v. v ! i * v ! i) = 0 \<longleftrightarrow> (\<forall>i\<in>{..<length v}. v ! i * v ! i = 0)"
    by (rule sum_nonneg_eq_0_iff) simp_all
  also have "\<dots> \<longleftrightarrow> (\<forall>x\<in>set v. x = 0)"
    by (auto simp: all_set_conv_all_nth)
  finally show ?thesis
    by (simp add: vector_norm_def)
qed

lemma cosineSimilarity_eq:
  "length a = length b \<Longrightarrow>
     cosineSimilarity a b = Inr (js_div (\<Sum>i<length a. a ! i * b ! i) (vector_norm a * vector_norm b))"
  by (simp add: cosineSimilarity_def cosine_sums_eq vector_norm_def)

lemma cosineSimilarity_zero_norm:
  assumes "length a = length b" and "vector_norm a = 0 \<or> vector_norm b = 0"
  shows "cosineSimilarity a b = Inr NaN"
proof -
  have "(\<Sum>i<length a. a ! i * b ! i) = 0"
  proof (rule sum.neutral, rule ballI)
    fix i assume "i \<in> {..<length a}"
    then have "a ! i \<in> set a" "b ! i \<in> set b" using assms(1) by simp_all
    with assms(2) show "a ! i * b ! i = 0"
      by (auto simp: vector_norm_zero_iff)
  qed
  with assms show ?thesis
    by (auto simp: cosineSimilarity_eq js_div_def)
qed

lemma set_js_insert [simp]: "set (js_insert f x ys) = insert x (set ys)"
  by (induction ys) auto

lemma length_js_insert [simp]: "length (js_insert f x ys) = Suc (length ys)"
  by (induction ys) auto

lemma set_js_sort [simp]: "set (js_sort f xs) = set xs"
  by (induction xs) (simp_all add: js_sort_def)

lemma length_js_sort [simp]: "length (js_sort f xs) = length xs"
  by (induction xs) (simp_all add: js_sort_def)

lemma js_sort_Cons: "js_sort f (x # xs) = js_insert f x (js_sort f xs)"
  by (simp add: js_sort_def)

lemma js_gt_trans: "js_gt x y \<Longrightarrow> js_gt y z \<Longrightarrow> js_gt x z"
  by (cases x; cases y; cases z) (simp_all add: js_gt_def)

lemma js_gt_total: "x \<noteq> NaN \<Longrightarrow> y \<noteq> NaN \<Longrightarrow> js_gt x y \<or> x = y \<or> js_gt y x"
  by (cases x; cases y) (auto simp: js_gt_def)

lemma js_insert_ranked:
  assumes "sorted_wrt ranks_before ys"
    and "\<forall>y\<in>set ys. index x < index y"
    and "\<forall>y\<in>set (x # ys). similarity y \<noteq> NaN"
  shows "sorted_wrt ranks_before (js_insert (\<lambda>a b. js_sub (similarity b) (similarity a)) x ys)"
  using assms
proof (induction ys)
  case Nil
  then show ?case by simp
next
  case (Cons y ys)
  show ?case
  proof (cases "js_gt (similarity y) (similarity x)")
    case True
    have "sorted_wrt ranks_before (js_insert (\<lambda>a b. js_sub (similarity b) (similarity a)) x ys)"
      using Cons by simp
    moreover have "ranks_before y x"
      using True by (simp add: ranks_before_def)
    ultimately show ?thesis
      using True Cons.prems(1) by (simp add: js_gt_def)
  next
    case False
    have "ranks_before x z" if "z \<in> set (y # ys)" for z
    proof -
      have nn: "similarity x \<noteq> NaN" "similarity z \<noteq> NaN"
        using Cons.prems(3) that by auto
      have "index x < index z"
        using Cons.prems(2) that by auto
      moreover have "\<not> js_gt (similarity z) (similarity x)"
      proof (cases "z = y")
        case True then show ?thesis using False by simp
      next
        case neq: False
        then have "ranks_before y z" using that Cons.prems(1) by auto
        then show ?thesis
          using False js_gt_trans [of "similarity y" "similarity z" "similarity x"]
          by (auto simp: ranks_before_def)
      qed
      ultimately show ?thesis
        using js_gt_total [OF nn] by (auto simp: ranks_before_def)
    qed
    then show ?thesis
      using False Cons.prems(1) by (simp add: js_gt_def)
  qed
qed

lemma js_sort_ranked:
  assumes "sorted_wrt (\<lambda>a b. index a < index b) xs"
    and "\<forall>y\<in>set xs. similarity y \<noteq> NaN"
  shows "sorted_wrt ranks_before (js_sort (\<lambda>a b. js_sub (similarity b) (similarity a)) xs)"
  using assms
proof (induction xs)
  case Nil
  then show ?case by (simp add: js_sort_def)
next
  case (Cons x xs)
  then show ?case
    by (simp add: js_sort_Cons js_insert_ranked)
qed

lemma length_similarities [simp]: "length (similarities q store) = length store"
  by (simp add: similarities_def)

lemma nth_similarities:
  "i < length store \<Longrightarrow> similarities q store ! i = score_record q (store ! i) i"
  by (simp add: similarities_def)

lemma index_score_record [simp]: "index (score_record q r i) = i"
  by (simp add: score_record_def split: sum.splits)

lemma item_record_score_record [simp]: "item_record (score_record q r i) = record_text r"
  by (simp add: score_record_def split: sum.splits)

lemma in_similarities_iff:
  "item \<in> set (similarities q store) \<longleftrightarrow>
     (\<exists>i<length store. item = score_record q (store ! i) i)"
  by (auto simp: similarities_def)

lemma similarities_index_sorted:
  "sorted_wrt (\<lambda>a b. index a < index b) (similarities q store)"
  by (simp add: sorted_wrt_iff_nth_less nth_similarities)

lemma sorted_in_set: "item \<in> set (sortedSimilarities q store) \<longleftrightarrow> item \<in> set (similarities q store)"
  by (simp add: sortedSimilarities_def)

lemma topItems_subset:
  "item \<in> set (topItems cfg q store) \<Longrightarrow>
     item \<in> set (similarities q store) \<and> js_ge (similarity item) (RETRIEVAL_THRESHOLD cfg)"
  by (auto simp: topItems_def aboveThreshold_def sortedSimilarities_def dest!: in_set_takeD)

lemma topItems_score:
  assumes "item \<in> set (topItems cfg q store)"
  shows "index item < length store \<and> item = score_record q (store ! index item) (index item)
         \<and> js_ge (similarity item) (RETRIEVAL_THRESHOLD cfg)"
proof -
  from assms have "item \<in> set (similarities q store)" and ge: "js_ge (similarity item) (RETRIEVAL_THRESHOLD cfg)"
    using topItems_subset by blast+
  then obtain i where "i < length store" "item = score_record q (store ! i) i"
    by (auto simp: in_similarities_iff)
  with ge show ?thesis by simp
qed

lemma score_record_mismatch:
  "length (embedding r) \<noteq> length q \<Longrightarrow>
     score_record q r i = \<lparr>item_record = record_text r, similarity = Num 0, index = i\<rparr>"
  by (auto simp: score_record_def cosineSimilarity_def)

lemma score_record_zero_norm:
  "length (embedding r) = length q \<Longrightarrow> vector_norm (embedding r) = 0 \<Longrightarrow>
     score_record q r i = \<lparr>item_record = record_text r, similarity = NaN, index = i\<rparr>"
  by (simp add: score_record_def cosineSimilarity_zero_norm)

lemma process_nonempty:
  "store \<noteq> [] \<Longrightarrow>
     process cfg store qd =
       Inr \<lparr>retrieved_queryText = queryText qd,
            relevantRecords = map item_record (topItems cfg (queryEmbedding qd) store)\<rparr>"
  by (simp add: process_def)

text \<open>
  Claim C7. \<open>cosineSimilarity\<close> raises on vectors of different lengths. In \<open>process\<close>, a
  record whose embedding has another length than the query gets similarity \<open>0\<close>: it is
  among the sorted items, the retrieval returns a result, and for a positive threshold
  the record is not among the returned items.
\<close>

theorem dimension_mismatch_scores_zero:
  "(length a \<noteq> length b \<longrightarrow> cosineSimilarity a b = Inl VectorsMustHaveSameLength)
   \<and> (i < length store \<and> length (embedding (store ! i)) \<noteq> length q \<longrightarrow>
        similarities q store ! i
          = \<lparr>item_record = record_text (store ! i), similarity = Num 0, index = i\<rparr>
        \<and> (\<exists>item\<in>set (sortedSimilarities q store). index item = i \<and> similarity item = Num 0)
        \<and> process cfg store \<lparr>queryText = t, queryEmbedding = q\<rparr>
            = Inr \<lparr>retrieved_queryText = t,
                   relevantRecords = map item_record (topItems cfg q store)\<rparr>
        \<and> (0 < RETRIEVAL_THRESHOLD cfg \<longrightarrow> (\<forall>item\<in>set (topItems cfg q store). index item \<noteq> i)))"
proof (intro conjI impI)
  assume "length a \<noteq> length b"
  then show "cosineSimilarity a b = Inl VectorsMustHaveSameLength"
    by (simp add: cosineSimilarity_def)
next
  assume h: "i < length store \<and> length (embedding (store ! i)) \<noteq> length q"
  then show nth: "similarities q store ! i
          = \<lparr>item_record = record_text (store ! i), similarity = Num 0, index = i\<rparr>"
    by (simp add: nth_similarities score_record_mismatch)
  from h have "similarities q store ! i \<in> set (similarities q store)"
    by simp
  with nth show "\<exists>item\<in>set (sortedSimilarities q store). index item = i \<and> similarity item = Num 0"
    by (auto simp: sorted_in_set intro!: bexI [where x = "similarities q store ! i"])
  from h have "store \<noteq> []" by auto
  then show "process cfg store \<lparr>queryText = t, queryEmbedding = q\<rparr>
            = Inr \<lparr>retrieved_queryText = t,
                   relevantRecords = map item_record (topItems cfg q store)\<rparr>"
    by (simp add: process_nonempty)
next
  assume h: "i < length store \<and> length (embedding (store ! i)) \<noteq> length q"
    and thr: "0 < RETRIEVAL_THRESHOLD cfg"
  show "\<forall>item\<in>set (topItems cfg q store). index item \<noteq> i"
  proof
    fix item assume "item \<in> set (topItems cfg q store)"
    then have *: "item = score_record q (store ! index item) (index item)"
      "js_ge (similarity item) (RETRIEVAL_THRESHOLD cfg)"
      using topItems_score by blast+
    show "index item \<noteq> i"
    proof
      assume "index item = i"
      with * h have "similarity item = Num 0"
        by (simp add: score_record_mismatch)
      with *(2) thr show False by simp
    qed
  qed
qed

text \<open>
  Claim C10. \<open>cosineSimilarity\<close> raises exactly when the lengths differ. For equal lengths
  and an argument of zero norm its result is \<open>NaN\<close> (\<open>0 / 0\<close>), not a number. A stored
  record of zero norm is never among the items \<open>process\<close> returns, for any positive
  threshold.
\<close>

theorem cosineSimilarity_raises_iff:
  "(isl (cosineSimilarity a b) \<longleftrightarrow> length a \<noteq> length b)
   \<and> (length a = length b \<and> (vector_norm a = 0 \<or> vector_norm b = 0) \<longrightarrow>
        cosineSimilarity a b = Inr NaN)
   \<and> (i < length store \<and> vector_norm (embedding (store ! i)) = 0 \<and> 0 < RETRIEVAL_THRESHOLD cfg \<longrightarrow>
        process cfg store \<lparr>queryText = t, queryEmbedding = q\<rparr>
          = Inr \<lparr>retrieved_queryText = t,
                 relevantRecords = map item_record (topItems cfg q store)\<rparr>
        \<and> (\<forall>item\<in>set (topItems cfg q store). index item \<noteq> i))"
proof (intro conjI impI)
  show "isl (cosineSimilarity a b) \<longleftrightarrow> length a \<noteq> length b"
    by (simp add: cosineSimilarity_def split: prod.splits)
next
  assume "length a = length b \<and> (vector_norm a = 0 \<or> vector_norm b = 0)"
  then show "cosineSimilarity a b = Inr NaN"
    by (simp add: cosineSimilarity_zero_norm)
next
  assume h: "i < length store \<and> vector_norm (embedding (store ! i)) = 0 \<and> 0 < RETRIEVAL_THRESHOLD cfg"
  then have "store \<noteq> []" by auto
  then show "process cfg store \<lparr>queryText = t, queryEmbedding = q\<rparr>
          = Inr \<lparr>retrieved_queryText = t,
                 relevantRecords = map item_record (topItems cfg q store)\<rparr>"
    by (simp add: process_nonempty)
  show "\<forall>item\<in>set (topItems cfg q store). index item \<noteq> i"
  proof
    fix item assume "item \<in> set (topItems cfg q store)"
    then have *: "item = score_record q (store ! index item) (index item)"
      "js_ge (similarity item) (RETRIEVAL_THRESHOLD cfg)"
      using topItems_score by blast+
    show "index item \<noteq> i"
    proof
      assume eq: "index item = i"
      have "similarity item = Num 0 \<or> similarity item = NaN"
      proof (cases "length (embedding (store ! i)) = length q")
        case True
        with * eq h show ?thesis by (simp add: score_record_zero_norm)
      next
        case False
        with * eq show ?thesis by (simp add: score_record_mismatch)
      qed
      with *(2) h show False by auto
    qed
  qed
qed

lemma length_similarities_with [simp]: "length (similarities_with sim q store) = length store"
  by (simp add: similarities_with_def)

lemma nth_similarities_with:
  "i < length store \<Longrightarrow> similarities_with sim q store ! i = score_record_with sim q (store ! i) i"
  by (simp add: similarities_with_def)

lemma index_score_record_with [simp]: "index (score_record_with sim q r i) = i"
  by (simp add: score_record_with_def split: sum.splits)

lemma item_record_score_record_with [simp]:
  "item_record (score_record_with sim q r i) = record_text r"
  by (simp add: score_record_with_def split: sum.splits)

lemma in_similarities_with_iff:
  "item \<in> set (similarities_with sim q store) \<longleftrightarrow>
     (\<exists>i<length store. item = score_record_with sim q (store ! i) i)"
  by (auto simp: similarities_with_def)

lemma similarities_with_index_sorted:
  "sorted_wrt (\<lambda>a b. index a < index b) (similarities_with sim q store)"
  by (simp add: sorted_wrt_iff_nth_less nth_similarities_with)

lemma similarities_with_cosineSimilarity:
  "similarities_with cosineSimilarity q store = similarities q store"
  by (simp add: similarities_with_def similarities_def score_record_with_def score_record_def)

lemma topItems_of_similarities:
  "topItems_of cfg (similarities q store) = topItems cfg q store"
  by (simp add: topItems_of_def topItems_def aboveThreshold_def sortedSimilarities_def)

lemma process_with_cosineSimilarity:
  "process_with cosineSimilarity cfg store qd = process cfg store qd"
  by (simp add: process_with_def process_def similarities_with_cosineSimilarity
      topItems_of_similarities)

lemma length_topItems_of: "length (topItems_of cfg items) \<le> RETRIEVAL_TOP_K cfg"
  by (simp add: topItems_of_def)

lemma topItems_of_subset:
  "item \<in> set (topItems_of cfg items) \<Longrightarrow>
     item \<in> set items \<and> js_ge (similarity item) (RETRIEVAL_THRESHOLD cfg)"
  by (auto simp: topItems_of_def dest!: in_set_takeD)

lemma topItems_of_score:
  assumes "item \<in> set (topItems_of cfg (similarities_with sim q store))"
  shows "index item < length store
         \<and> item = score_record_with sim q (store ! index item) (index item)
         \<and> js_ge (similarity item) (RETRIEVAL_THRESHOLD cfg)"
proof -
  from assms have "item \<in> set (similarities_with sim q store)"
    and ge: "js_ge (similarity item) (RETRIEVAL_THRESHOLD cfg)"
    using topItems_of_subset by blast+
  then obtain i where "i < length store" "item = score_record_with sim q (store ! i) i"
    by (auto simp: in_similarities_with_iff)
  with ge show ?thesis by simp
qed

lemma topItems_of_ranked:
  assumes "sorted_wrt (\<lambda>a b. index a < index b) items"
    and "\<forall>item\<in>set items. similarity item \<noteq> NaN"
  shows "sorted_wrt ranks_before
           (filter (\<lambda>item. js_ge (similarity item) (RETRIEVAL_THRESHOLD cfg))
              (js_sort (\<lambda>a b. js_sub (similarity b) (similarity a)) items))"
    and "sorted_wrt ranks_before (topItems_of cfg items)"
proof -
  have "sorted_wrt ranks_before (js_sort (\<lambda>a b. js_sub (similarity b) (similarity a)) items)"
    by (rule js_sort_ranked [OF assms])
  then show "sorted_wrt ranks_before
           (filter (\<lambda>item. js_ge (similarity item) (RETRIEVAL_THRESHOLD cfg))
              (js_sort (\<lambda>a b. js_sub (similarity b) (similarity a)) items))"
    by (simp add: sorted_wrt_filter)
  then show "sorted_wrt ranks_before (topItems_of cfg items)"
    by (simp add: topItems_of_def sorted_wrt_take)
qed

lemma topItems_of_complete:
  assumes srt: "sorted_wrt (\<lambda>a b. index a < index b) items"
    and nn: "\<forall>item\<in>set items. similarity item \<noteq> NaN"
    and x: "x \<in> set items"
    and ge: "js_ge (similarity x) (RETRIEVAL_THRESHOLD cfg)"
  shows "x \<in> set (topItems_of cfg items)
         \<or> (length (topItems_of cfg items) = RETRIEVAL_TOP_K cfg
            \<and> (\<forall>item\<in>set (topItems_of cfg items). ranks_before item x))"
proof -
  define A where "A = filter (\<lambda>item. js_ge (similarity item) (RETRIEVAL_THRESHOLD cfg))
              (js_sort (\<lambda>a b. js_sub (similarity b) (similarity a)) items)"
  define K where "K = RETRIEVAL_TOP_K cfg"
  have top: "topItems_of cfg items = take K A"
    by (simp add: topItems_of_def A_def K_def)
  have "x \<in> set A"
    using x ge by (simp add: A_def)
  then have "x \<in> set (take K A) \<or> x \<in> set (drop K A)"
    by (metis Un_iff append_take_drop_id set_append)
  then show ?thesis
  proof
    assume "x \<in> set (take K A)"
    then show ?thesis by (simp add: top)
  next
    assume d: "x \<in> set (drop K A)"
    then have "K < length A"
      by (cases "K < length A") simp_all
    then have len: "length (take K A) = K"
      by simp
    have "sorted_wrt ranks_before (take K A @ drop K A)"
      using topItems_of_ranked(1) [OF srt nn, of cfg] by (simp add: A_def)
    then have "\<forall>item\<in>set (take K A). ranks_before item x"
      using d unfolding sorted_wrt_append by blast
    with len show ?thesis by (simp add: top K_def)
  qed
qed

lemma scenario_E:
  assumes sims: "map similarity (similarities_with sim q store)
                   = [Num (9/10), Num (7/10), Num (4/10), Num (3/10)]"
    and thr: "RETRIEVAL_THRESHOLD cfg = 1/2" and k: "RETRIEVAL_TOP_K cfg = 3"
  shows "map item_record (topItems_of cfg (similarities_with sim q store))
           = [record_text (store ! 0), record_text (store ! 1)]"
proof -
  from sims have len: "length store = 4"
    using length_map [of similarity "similarities_with sim q store"] by simp
  obtain a b c d where abcd: "similarities_with sim q store = [a, b, c, d]"
    using sims by (auto simp: map_eq_Cons_conv)
  with sims have s: "similarity a = Num (9/10)" "similarity b = Num (7/10)"
    "similarity c = Num (4/10)" "similarity d = Num (3/10)" by simp_all
  have "a = similarities_with sim q store ! 0" "b = similarities_with sim q store ! 1"
    using abcd by simp_all
  then have ab: "item_record a = record_text (store ! 0)" "item_record b = record_text (store ! 1)"
    using len by (simp_all add: nth_similarities_with)
  have "topItems_of cfg [a, b, c, d] = [a, b]"
    by (simp add: topItems_of_def js_sort_def thr k s)
  with ab abcd show ?thesis by simp
qed

text \<open>
  Claim C1, as the code has it, for every similarity computation \<open>sim\<close> (the one of the
  engine, in doubles, among them; \<open>process\<close> is the instance at the exact
  \<open>cosineSimilarity\<close>). On a non-empty store the method returns the texts of at most
  \<open>RETRIEVAL_TOP_K\<close> items, each the scored record of its index, with a computed
  similarity \<open>>= RETRIEVAL_THRESHOLD\<close>; this holds whatever the similarities are. When
  no computed similarity is \<open>NaN\<close>, the items are in descending order of computed
  similarity, the insertion order breaking ties between equal similarities, and every
  record that reaches the threshold and is not returned ranks after all
  \<open>RETRIEVAL_TOP_K\<close> returned ones. When the computed similarities are
  \<open>[0.9, 0.7, 0.4, 0.3]\<close>, the threshold \<open>0.5\<close> and top-K \<open>3\<close>, the texts of the first two
  records are returned, in that order.
\<close>

theorem retrieve_ranked:
  assumes "store \<noteq> []"
  shows "process_with sim cfg store \<lparr>queryText = t, queryEmbedding = q\<rparr>
           = Inr \<lparr>retrieved_queryText = t,
                  relevantRecords =
                    map item_record (topItems_of cfg (similarities_with sim q store))\<rparr>
         \<and> process cfg store \<lparr>queryText = t, queryEmbedding = q\<rparr>
             = process_with cosineSimilarity cfg store \<lparr>queryText = t, queryEmbedding = q\<rparr>
         \<and> length (topItems_of cfg (similarities_with sim q store)) \<le> RETRIEVAL_TOP_K cfg
         \<and> (\<forall>item\<in>set (topItems_of cfg (similarities_with sim q store)).
               index item < length store
               \<and> item = score_record_with sim q (store ! index item) (index item)
               \<and> js_ge (similarity item) (RETRIEVAL_THRESHOLD cfg))
         \<and> ((\<forall>item\<in>set (similarities_with sim q store). similarity item \<noteq> NaN) \<longrightarrow>
               sorted_wrt ranks_before (topItems_of cfg (similarities_with sim q store))
               \<and> (\<forall>i<length store.
                     js_ge (similarity (score_record_with sim q (store ! i) i))
                       (RETRIEVAL_THRESHOLD cfg) \<longrightarrow>
                     score_record_with sim q (store ! i) i
                       \<in> set (topItems_of cfg (similarities_with sim q store))
                     \<or> (length (topItems_of cfg (similarities_with sim q store))
                          = RETRIEVAL_TOP_K cfg
                         \<and> (\<forall>item\<in>set (topItems_of cfg (similarities_with sim q store)).
                               ranks_before item (score_record_with sim q (store ! i) i)))))
         \<and> (map similarity (similarities_with sim q store)
               = [Num (9/10), Num (7/10), Num (4/10), Num (3/10)]
             \<and> RETRIEVAL_THRESHOLD cfg = 1/2 \<and> RETRIEVAL_TOP_K cfg = 3 \<longrightarrow>
             map item_record (topItems_of cfg (similarities_with sim q store))
               = [record_text (store ! 0), record_text (store ! 1)])"
proof (intro conjI impI allI ballI)
  show "process_with sim cfg store \<lparr>queryText = t, queryEmbedding = q\<rparr>
           = Inr \<lparr>retrieved_queryText = t,
                  relevantRecords =
                    map item_record (topItems_of cfg (similarities_with sim q store))\<rparr>"
    using assms by (simp add: process_with_def)
  show "process cfg store \<lparr>queryText = t, queryEmbedding = q\<rparr>
             = process_with cosineSimilarity cfg store \<lparr>queryText = t, queryEmbedding = q\<rparr>"
    by (simp add: process_with_cosineSimilarity)
  show "length (topItems_of cfg (similarities_with sim q store)) \<le> RETRIEVAL_TOP_K cfg"
    by (rule length_topItems_of)
next
  fix item assume "item \<in> set (topItems_of cfg (similarities_with sim q store))"
  then show "index item < length store"
    "item = score_record_with sim q (store ! index item) (index item)"
    "js_ge (similarity item) (RETRIEVAL_THRESHOLD cfg)"
    using topItems_of_score by blast+
next
  assume nn: "\<forall>item\<in>set (similarities_with sim q store). similarity item \<noteq> NaN"
  show "sorted_wrt ranks_before (topItems_of cfg (similarities_with sim q store))"
    by (rule topItems_of_ranked(2) [OF similarities_with_index_sorted nn])
  fix i assume i: "i < length store"
    and ge: "js_ge (similarity (score_record_with sim q (store ! i) i)) (RETRIEVAL_THRESHOLD cfg)"
  from i have "score_record_with sim q (store ! i) i \<in> set (similarities_with sim q store)"
    by (auto simp: in_similarities_with_iff)
  then show "score_record_with sim q (store ! i) i
                       \<in> set (topItems_of cfg (similarities_with sim q store))
                     \<or> (length (topItems_of cfg (similarities_with sim q store))
                          = RETRIEVAL_TOP_K cfg
                         \<and> (\<forall>item\<in>set (topItems_of cfg (similarities_with sim q store)).
                               ranks_before item (score_record_with sim q (store ! i) i)))"
    using ge by (rule topItems_of_complete [OF similarities_with_index_sorted nn])
next
  assume "map similarity (similarities_with sim q store)
               = [Num (9/10), Num (7/10), Num (4/10), Num (3/10)]
             \<and> RETRIEVAL_THRESHOLD cfg = 1/2 \<and> RETRIEVAL_TOP_K cfg = 3"
  then show "map item_record (topItems_of cfg (similarities_with sim q store))
               = [record_text (store ! 0), record_text (store ! 1)]"
    by (simp add: scenario_E)
qed

lemmas eval_retrieval =
  cosineSimilarity_def cosine_sums_def js_div_def score_record_def similarities_def
  sortedSimilarities_def js_sort_def aboveThreshold_def topItems_def process_def
  KNOWLEDGE_CONFIG_def upt_rec

lemma scenario_E_items:
  "similarities_with cosineSimilarity [1, 0, 0, 0] scenario_E_store
     = [\<lparr>item_record = js ''A'', similarity = Num (9/10), index = 0\<rparr>,
        \<lparr>item_record = js ''B'', similarity = Num (7/10), index = 1\<rparr>,
        \<lparr>item_record = js ''C'', similarity = Num (4/10), index = 2\<rparr>,
        \<lparr>item_record = js ''D'', similarity = Num (3/10), index = 3\<rparr>]"
  by (simp add: scenario_E_store_def similarities_with_def score_record_with_def
      cosineSimilarity_def cosine_sums_def js_div_def upt_rec)

lemma tie_similarities:
  "similarities_with cosineSimilarity [1, 0] tie_store
     = [\<lparr>item_record = js ''a'', similarity = Num (3/5), index = 0\<rparr>,
        \<lparr>item_record = js ''b'', similarity = Num 1, index = 1\<rparr>,
        \<lparr>item_record = js ''c'', similarity = Num 1, index = 2\<rparr>]"
  by (simp add: tie_store_def similarities_with_def score_record_with_def
      cosineSimilarity_def cosine_sums_def js_div_def upt_rec)

theorem retrieve_ranked_witness:
  "process_with cosineSimilarity scenario_E_config scenario_E_store
       \<lparr>queryText = js ''q'', queryEmbedding = [1, 0, 0, 0]\<rparr>
     = Inr \<lparr>retrieved_queryText = js ''q'', relevantRecords = [js ''A'', js ''B'']\<rparr>
   \<and> process scenario_E_config scenario_E_store
       \<lparr>queryText = js ''q'', queryEmbedding = [1, 0, 0, 0]\<rparr>
     = Inr \<lparr>retrieved_queryText = js ''q'', relevantRecords = [js ''A'', js ''B'']\<rparr>
   \<and> length (topItems_of scenario_E_config
               (similarities_with cosineSimilarity [1, 0, 0, 0] scenario_E_store)) \<le> 3
   \<and> sorted_wrt ranks_before
       (topItems_of scenario_E_config
          (similarities_with cosineSimilarity [1, 0, 0, 0] scenario_E_store))
   \<and> process KNOWLEDGE_CONFIG tie_store \<lparr>queryText = js ''q'', queryEmbedding = [1, 0]\<rparr>
     = Inr \<lparr>retrieved_queryText = js ''q'', relevantRecords = [js ''b'', js ''c'', js ''a'']\<rparr>
   \<and> sorted_wrt ranks_before
       (topItems_of KNOWLEDGE_CONFIG (similarities_with cosineSimilarity [1, 0] tie_store))"
proof -
  have ne: "scenario_E_store \<noteq> []" "tie_store \<noteq> []"
    by (simp_all add: scenario_E_store_def tie_store_def)
  have sims: "map similarity (similarities_with cosineSimilarity [1, 0, 0, 0] scenario_E_store)
     = [Num (9/10), Num (7/10), Num (4/10), Num (3/10)]"
    by (simp add: scenario_E_items)
  have nn: "\<forall>item\<in>set (similarities_with cosineSimilarity [1, 0, 0, 0] scenario_E_store).
              similarity item \<noteq> NaN"
    by (simp add: scenario_E_items)
  have nn': "\<forall>item\<in>set (similarities_with cosineSimilarity [1, 0] tie_store). similarity item \<noteq> NaN"
    by (simp add: tie_similarities)
  have cfg: "RETRIEVAL_THRESHOLD scenario_E_config = 1/2" "RETRIEVAL_TOP_K scenario_E_config = 3"
    by (simp_all add: scenario_E_config_def KNOWLEDGE_CONFIG_def)
  have st: "record_text (scenario_E_store ! 0) = js ''A''" "record_text (scenario_E_store ! 1) = js ''B''"
    by (simp_all add: scenario_E_store_def)
  have tie: "map item_record (topItems_of KNOWLEDGE_CONFIG
                (similarities_with cosineSimilarity [1, 0] tie_store))
             = [js ''b'', js ''c'', js ''a'']"
    by (simp add: tie_similarities topItems_of_def js_sort_def KNOWLEDGE_CONFIG_def)
  show ?thesis
    using retrieve_ranked [OF ne(1), of cosineSimilarity scenario_E_config "js ''q''" "[1, 0, 0, 0]"]
      retrieve_ranked [OF ne(2), of cosineSimilarity KNOWLEDGE_CONFIG "js ''q''" "[1, 0]"]
      sims nn nn' cfg st tie
    by simp
qed

text \<open>
  Claim C1 as stated, for every store: a record of zero norm between a record of
  similarity \<open>0.6\<close> and one of similarity \<open>0.8\<close> has similarity \<open>NaN\<close>, the comparator
  answers \<open>NaN\<close> on both of its neighbours, the sort leaves the three in place, and the
  texts come back in ascending order of similarity.
\<close>

theorem retrieve_order_counterexample:
  "process KNOWLEDGE_CONFIG zero_norm_store \<lparr>queryText = js ''q'', queryEmbedding = [1, 0]\<rparr>
     = Inr \<lparr>retrieved_queryText = js ''q'', relevantRecords = [js ''a'', js ''c'']\<rparr>
   \<and> topItems KNOWLEDGE_CONFIG [1, 0] zero_norm_store
       = [\<lparr>item_record = js ''a'', similarity = Num (3/5), index = 0\<rparr>,
          \<lparr>item_record = js ''c'', similarity = Num (4/5), index = 2\<rparr>]
   \<and> \<not> sorted_wrt ranks_before (topItems KNOWLEDGE_CONFIG [1, 0] zero_norm_store)"
  by (simp add: zero_norm_store_def eval_retrieval ranks_before_def js_gt_def)

theorem dimension_mismatch_scores_zero_witness:
  "cosineSimilarity [1, 0] [1, 2, 2] = Inl VectorsMustHaveSameLength
   \<and> similarities [1, 0] mismatch_store ! 1
       = \<lparr>item_record = js ''m'', similarity = Num 0, index = 1\<rparr>
   \<and> process KNOWLEDGE_CONFIG mismatch_store \<lparr>queryText = js ''q'', queryEmbedding = [1, 0]\<rparr>
       = Inr \<lparr>retrieved_queryText = js ''q'', relevantRecords = [js ''a'']\<rparr>"
proof -
  have h: "(1::nat) < length mismatch_store \<and> length (embedding (mismatch_store ! 1)) \<noteq> length [1::real, 0]"
    by (simp add: mismatch_store_def)
  have top: "map item_record (topItems KNOWLEDGE_CONFIG [1, 0] mismatch_store) = [js ''a'']"
    by (simp add: mismatch_store_def eval_retrieval)
  have r: "record_text (mismatch_store ! 1) = js ''m''"
    by (simp add: mismatch_store_def)
  show ?thesis
    using dimension_mismatch_scores_zero [of "[1, 0]" "[1, 2, 2]" 1 mismatch_store "[1, 0]" KNOWLEDGE_CONFIG "js ''q''"]
      h top r
    by simp
qed

theorem cosineSimilarity_raises_iff_witness:
  "\<not> isl (cosineSimilarity [1, 0] [0, 0])
   \<and> isl (cosineSimilarity [1, 0] [1, 2, 2])
   \<and> cosineSimilarity [1, 0] [0, 0] = Inr NaN
   \<and> process KNOWLEDGE_CONFIG zero_norm_store \<lparr>queryText = js ''q'', queryEmbedding = [1, 0]\<rparr>
       = Inr \<lparr>retrieved_queryText = js ''q'', relevantRecords = [js ''a'', js ''c'']\<rparr>"
proof -
  have h: "(1::nat) < length zero_norm_store \<and> vector_norm (embedding (zero_norm_store ! 1)) = 0
           \<and> 0 < RETRIEVAL_THRESHOLD KNOWLEDGE_CONFIG"
    by (simp add: zero_norm_store_def vector_norm_def KNOWLEDGE_CONFIG_def)
  have n: "vector_norm [0, 0] = 0"
    by (simp add: vector_norm_def)
  have top: "map item_record (topItems KNOWLEDGE_CONFIG [1, 0] zero_norm_store) = [js ''a'', js ''c'']"
    by (simp add: zero_norm_store_def eval_retrieval)
  show ?thesis
    using cosineSimilarity_raises_iff [of "[1, 0]" "[0, 0]" 1 zero_norm_store KNOWLEDGE_CONFIG "js ''q''" "[1, 0]"]
      cosineSimilarity_raises_iff [of "[1, 0]" "[1, 2, 2]" 1 zero_norm_store KNOWLEDGE_CONFIG "js ''q''" "[1, 0]"]
      h n top
    by simp
qed

lemma sendMessage_no_query: "QueryProcessed m \<notin> set (sendMessage c ev)"
  by (simp add: sendMessage_def)

text \<open>
  Claim C4, as the code has it. \<open>process\<close> on an empty store raises "No embedded records
  available", and \<open>create\<close> only builds a graph over a non-empty store. \<open>handleChat\<close>
  without a graph, or on a connection whose knowledge is not loaded, leaves the
  connection as it is, sends the error "Please load documentation first before asking
  questions." (when the socket is open) and runs no query; with a graph and loaded
  knowledge it runs the query.
\<close>

theorem empty_store_raises_and_chat_guard:
  "process cfg [] queryData = Inl NoEmbeddedRecordsAvailable
   \<and> (create eenv knowledgeManager = Inr g \<longrightarrow> graph_records g \<noteq> [])
   \<and> (graph handler = None \<or> \<not> knowledgeLoaded (conn_state c) \<longrightarrow>
        handleChat env handler c msg = (c, sendMessage c NOT_READY)
        \<and> (\<forall>m. QueryProcessed m \<notin> set (snd (handleChat env handler c msg))))
   \<and> (graph handler \<noteq> None \<and> knowledgeLoaded (conn_state c) \<longrightarrow>
        QueryProcessed msg \<in> set (snd (handleChat env handler c msg)))"
proof (intro conjI impI)
  show "process cfg [] queryData = Inl NoEmbeddedRecordsAvailable"
    by (simp add: process_def)
next
  assume "create eenv knowledgeManager = Inr g"
  then show "graph_records g \<noteq> []"
    by (auto simp: create_def hasEmbeddings_def getEmbeddedRecords_def
        split: if_splits sum.splits)
next
  assume h: "graph handler = None \<or> \<not> knowledgeLoaded (conn_state c)"
  then show eq: "handleChat env handler c msg = (c, sendMessage c NOT_READY)"
    by (auto simp: handleChat_def NOT_READY_def split: option.splits)
  show "\<forall>m. QueryProcessed m \<notin> set (snd (handleChat env handler c msg))"
    by (simp add: eq sendMessage_no_query)
next
  assume "graph handler \<noteq> None \<and> knowledgeLoaded (conn_state c)"
  then show "QueryProcessed msg \<in> set (snd (handleChat env handler c msg))"
    by (auto simp: handleChat_def Let_def split: option.splits sum.splits prod.splits)
qed

theorem empty_store_raises_and_chat_guard_witness:
  "handleChat example_chat_env \<lparr>graph = None\<rparr> idle_connection (js ''hello'')
     = (idle_connection, [Sent NOT_READY])
   \<and> create example_embedder_env
         \<lparr>embeddedRecords = mismatch_store, embedderService = \<lparr>initialized = True\<rparr>\<rparr>
       = Inr loaded_graph
   \<and> graph_records loaded_graph \<noteq> []
   \<and> QueryProcessed (js ''hello'')
         \<in> set (snd (handleChat example_chat_env \<lparr>graph = Some loaded_graph\<rparr>
                        (idle_connection\<lparr>conn_state := \<lparr>messages = [], knowledgeLoaded = True\<rparr>\<rparr>)
                        (js ''hello'')))"
proof -
  have c: "create example_embedder_env
         \<lparr>embeddedRecords = mismatch_store, embedderService = \<lparr>initialized = True\<rparr>\<rparr>
       = Inr loaded_graph"
    by (simp add: create_def hasEmbeddings_def getEmbeddedRecords_def initialize_def
        example_embedder_env_def loaded_graph_def mismatch_store_def)
  show ?thesis
    using c
      empty_store_raises_and_chat_guard [of KNOWLEDGE_CONFIG "\<lparr>queryText = [], queryEmbedding = []\<rparr>"
        example_embedder_env
        "\<lparr>embeddedRecords = mismatch_store, embedderService = \<lparr>initialized = True\<rparr>\<rparr>"
        loaded_graph "\<lparr>graph = None\<rparr>" idle_connection example_chat_env "js ''hello''"]
      empty_store_raises_and_chat_guard [of KNOWLEDGE_CONFIG "\<lparr>queryText = [], queryEmbedding = []\<rparr>"
        example_embedder_env
        "\<lparr>embeddedRecords = mismatch_store, embedderService = \<lparr>initialized = True\<rparr>\<rparr>"
        loaded_graph "\<lparr>graph = Some loaded_graph\<rparr>"
        "idle_connection\<lparr>conn_state := \<lparr>messages = [], knowledgeLoaded = True\<rparr>\<rparr>"
        example_chat_env "js ''hello''"]
    by (simp add: sendMessage_def idle_connection_def)
qed

text \<open>
  Claim C4 as stated (no error from the retrieval itself on an empty store) fails: the
  retrieval raises.
\<close>

theorem empty_store_counterexample:
  "process KNOWLEDGE_CONFIG [] \<lparr>queryText = js ''q'', queryEmbedding = [1, 0]\<rparr>
     = Inl NoEmbeddedRecordsAvailable"
  by (simp add: process_def)

section \<open>The chunker\<close>

lemma length_trim: "length (trim s) \<le> length s"
proof -
  have "length (trim s) \<le> length (dropWhile isWhiteSpace s)"
    unfolding trim_def using length_dropWhile_le [of isWhiteSpace "rev (dropWhile isWhiteSpace s)"]
    by simp
  also have "\<dots> \<le> length s" by (rule length_dropWhile_le)
  finally show ?thesis .
qed





lemma match_sentences_Nil [simp]: "match_sentences [] = []"
  by (subst match_sentences.simps) simp

lemma match_sentences_terminator:
  "isTerminator c \<Longrightarrow> match_sentences (c # cs) = match_sentences cs"
  by (subst match_sentences.simps) simp

lemma match_sentences_body:
  assumes "\<not> isTerminator c"
  shows "match_sentences (c # cs) =
     (if dropWhile (\<lambda>c. \<not> isTerminator c) cs = [] then []
      else (c # takeWhile (\<lambda>c. \<not> isTerminator c) cs
              @ takeWhile isTerminator (dropWhile (\<lambda>c. \<not> isTerminator c) cs))
           # match_sentences (dropWhile isTerminator (dropWhile (\<lambda>c. \<not> isTerminator c) cs)))"
  using assms by (subst match_sentences.simps) (simp add: Let_def)

lemma match_sentences_shape: "\<forall>s\<in>set (match_sentences t). is_sentence s"
proof (induction t rule: match_sentences.induct)
  case (1 t)
  show ?case
  proof (cases t)
    case Nil
    then show ?thesis by simp
  next
    case (Cons c cs)
    show ?thesis
    proof (cases "isTerminator c")
      case True
      with 1(1) Cons show ?thesis by (simp add: match_sentences_terminator)
    next
      case False
      let ?rest = "dropWhile (\<lambda>c. \<not> isTerminator c) cs"
      show ?thesis
      proof (cases "?rest = []")
        case True
        with False Cons show ?thesis by (simp add: match_sentences_body)
      next
        case nonempty: False
        then have "isTerminator (hd ?rest)"
          using hd_dropWhile [of "\<lambda>c. \<not> isTerminator c" cs] by simp
        then have tne: "takeWhile isTerminator ?rest \<noteq> []"
          using nonempty by (cases ?rest) simp_all
        have "is_sentence (c # takeWhile (\<lambda>c. \<not> isTerminator c) cs @ takeWhile isTerminator ?rest)"
          unfolding is_sentence_def
          apply (rule exI [where x = "c # takeWhile (\<lambda>c. \<not> isTerminator c) cs"])
          apply (rule exI [where x = "takeWhile isTerminator ?rest"])
          using False tne
          by (auto simp: no_terminators_def all_terminators_def dest: set_takeWhileD)
        moreover have "\<forall>s\<in>set (match_sentences (dropWhile isTerminator ?rest)). is_sentence s"
          using 1(2) [OF _ _ refl refl] Cons False nonempty by simp
        ultimately show ?thesis
          using False Cons nonempty by (simp add: match_sentences_body)
      qed
    qed
  qed
qed

lemma match_sentences_decompose:
  "\<exists>trail. t = takeWhile isTerminator t @ concat (match_sentences t) @ trail
           \<and> no_terminators trail"
proof (induction t rule: match_sentences.induct)
  case (1 t)
  show ?case
  proof (cases t)
    case Nil
    then show ?thesis by (simp add: no_terminators_def)
  next
    case (Cons c cs)
    show ?thesis
    proof (cases "isTerminator c")
      case True
      with 1(1) Cons show ?thesis by (simp add: match_sentences_terminator)
    next
      case False
      let ?body = "takeWhile (\<lambda>c. \<not> isTerminator c) cs"
      let ?rest = "dropWhile (\<lambda>c. \<not> isTerminator c) cs"
      show ?thesis
      proof (cases "?rest = []")
        case True
        then have "no_terminators cs"
          by (auto simp: no_terminators_def dropWhile_eq_Nil_conv)
        with True False Cons show ?thesis
          by (simp add: match_sentences_body no_terminators_def)
      next
        case nonempty: False
        let ?rest' = "dropWhile isTerminator ?rest"
        obtain trail where tr: "?rest' = takeWhile isTerminator ?rest' @ concat (match_sentences ?rest') @ trail"
          "no_terminators trail"
          using 1(2) [OF _ _ refl refl] Cons False nonempty by auto
        have "takeWhile isTerminator ?rest' = []"
          by (metis (full_types) dropWhile_eq_Nil_conv hd_dropWhile list.collapse takeWhile.simps(2) takeWhile_eq_Nil_iff)
        with tr have r': "?rest' = concat (match_sentences ?rest') @ trail" by simp
        have "cs = ?body @ takeWhile isTerminator ?rest @ ?rest'"
          by simp
        then have eq: "c # cs = (c # ?body @ takeWhile isTerminator ?rest) @ concat (match_sentences ?rest') @ trail"
          using r' by (metis append.assoc append_Cons)
        have ms: "match_sentences (c # cs)
            = (c # ?body @ takeWhile isTerminator ?rest) # match_sentences ?rest'"
          using False nonempty by (simp add: match_sentences_body)
        have tw: "takeWhile isTerminator (c # cs) = []"
          using False by simp
        have "c # cs = takeWhile isTerminator (c # cs) @ concat (match_sentences (c # cs)) @ trail"
          unfolding ms tw using eq by simp
        then show ?thesis
          using Cons tr(2) by blast
      qed
    qed
  qed
qed

lemma sentence_loop_greedy:
  assumes "\<forall>s\<in>set ss. length s \<le> m"
  shows "(case sentence_loop m ss (chunks, cur) of (chunks', cur') \<Rightarrow> chunks' @ flush cur')
           = chunks @ greedy_pack m cur ss"
  using assms
proof (induction ss arbitrary: chunks cur)
  case Nil
  then show ?case by simp
next
  case (Cons s ss)
  then show ?case by (simp add: flush_def Let_def)
qed

lemma chunkText_flush:
  "chunkText txt m = (case sentence_loop m (sentences txt) ([], []) of (chunks', cur') \<Rightarrow> chunks' @ flush cur')"
  by (simp add: chunkText_def flush_def split: prod.splits)

lemma word_loop_appends: "\<exists>extra. fst (word_loop m ws (chunks, temp)) = chunks @ extra"
proof (induction ws arbitrary: chunks temp)
  case Nil
  then show ?case by simp
next
  case (Cons w ws)
  show ?case
  proof (cases "length (temp @ [SPACE] @ w) \<le> m")
    case True
    then show ?thesis using Cons [of chunks "if temp \<noteq> [] then temp @ [SPACE] @ w else w"] by simp
  next
    case False
    obtain extra where "fst (word_loop m ws (if temp \<noteq> [] then chunks @ [trim temp] else chunks, w))
        = (if temp \<noteq> [] then chunks @ [trim temp] else chunks) @ extra"
      using Cons by blast
    with False show ?thesis by (cases "temp = []") auto
  qed
qed

lemma sentence_loop_overflow:
  assumes "maxChars < length (cur @ s)"
  shows "\<exists>extra cur'. sentence_loop maxChars (s # ss) (chunks, cur)
           = sentence_loop maxChars ss (chunks @ flush cur @ extra, cur')
           \<and> (length s \<le> maxChars \<longrightarrow> extra = [] \<and> cur' = s)"
proof -
  define chunks1 where "chunks1 = (if cur \<noteq> [] then chunks @ [trim cur] else chunks)"
  have c1: "chunks1 = chunks @ flush cur" by (simp add: chunks1_def flush_def)
  show ?thesis
  proof (cases "length s > maxChars")
    case True
    obtain chunks2 temp where wl: "word_loop maxChars (split_on SPACE s) (chunks1, []) = (chunks2, temp)"
      by (cases "word_loop maxChars (split_on SPACE s) (chunks1, [])") auto
    obtain extra where ex: "chunks2 = chunks1 @ extra"
      using word_loop_appends [of maxChars "split_on SPACE s" chunks1 "[]"] wl by auto
    have "sentence_loop maxChars (s # ss) (chunks, cur)
        = sentence_loop maxChars ss (chunks2, if temp \<noteq> [] then temp else cur)"
      using assms True wl unfolding chunks1_def by (simp add: Let_def)
    then have "sentence_loop maxChars (s # ss) (chunks, cur)
        = sentence_loop maxChars ss (chunks @ flush cur @ extra, if temp \<noteq> [] then temp else cur)"
      by (simp add: ex c1)
    with True show ?thesis by auto
  next
    case False
    have "sentence_loop maxChars (s # ss) (chunks, cur) = sentence_loop maxChars ss (chunks1, s)"
      using assms False unfolding chunks1_def by (simp add: Let_def)
    then have "sentence_loop maxChars (s # ss) (chunks, cur)
        = sentence_loop maxChars ss (chunks @ flush cur @ [], s)"
      by (simp add: c1)
    then show ?thesis by blast
  qed
qed

text \<open>
  Claim C6, as the code has it. The sentences are the successive matches of
  \<open>/[^.!?]+[.!?]+/g\<close>: each is a non-empty run without \<open>.!?\<close> followed by a non-empty run
  of \<open>.!?\<close>, and together they are a contiguous part of the text, after its leading
  terminators, whatever follows a terminator. A text without a match is its own single
  sentence. The loop appends a sentence to the running chunk when that stays within
  \<open>maxChars\<close>; otherwise it first flushes the trimmed running chunk, and a sentence that
  is itself within \<open>maxChars\<close> starts the new running chunk. When every sentence is within
  \<open>maxChars\<close>, \<open>chunkText\<close> is the greedy packing of the sentences. The empty text has no
  chunks.
\<close>

theorem chunker_sentences_and_greedy_packing:
  "chunkText [] maxChars = []
   \<and> (\<forall>s\<in>set (match_sentences txt). is_sentence s)
   \<and> (\<exists>trail. txt = takeWhile isTerminator txt @ concat (match_sentences txt) @ trail
          \<and> no_terminators trail)
   \<and> sentences txt = (if match_sentences txt = [] then [txt] else match_sentences txt)
   \<and> ((\<forall>s\<in>set (sentences txt). length s \<le> maxChars) \<longrightarrow>
        chunkText txt maxChars = greedy_pack maxChars [] (sentences txt))
   \<and> (length (cur @ s) \<le> maxChars \<longrightarrow>
        sentence_loop maxChars (s # ss) (chunks, cur) = sentence_loop maxChars ss (chunks, cur @ s))
   \<and> (maxChars < length (cur @ s) \<longrightarrow>
        (\<exists>extra cur'. sentence_loop maxChars (s # ss) (chunks, cur)
             = sentence_loop maxChars ss (chunks @ flush cur @ extra, cur')
           \<and> (length s \<le> maxChars \<longrightarrow> extra = [] \<and> cur' = s)))"
proof (intro conjI impI)
  show "chunkText [] maxChars = []"
    by (simp add: chunkText_def sentences_def)
  show "\<forall>s\<in>set (match_sentences txt). is_sentence s"
    by (rule match_sentences_shape)
  show "\<exists>trail. txt = takeWhile isTerminator txt @ concat (match_sentences txt) @ trail
          \<and> no_terminators trail"
    by (rule match_sentences_decompose)
  show "sentences txt = (if match_sentences txt = [] then [txt] else match_sentences txt)"
    by (simp add: sentences_def split: list.splits)
next
  assume "\<forall>s\<in>set (sentences txt). length s \<le> maxChars"
  then show "chunkText txt maxChars = greedy_pack maxChars [] (sentences txt)"
    using sentence_loop_greedy [of "sentences txt" maxChars "[]" "[]"]
    by (simp add: chunkText_flush)
next
  assume "length (cur @ s) \<le> maxChars"
  then show "sentence_loop maxChars (s # ss) (chunks, cur)
      = sentence_loop maxChars ss (chunks, cur @ s)"
    by simp
next
  assume "maxChars < length (cur @ s)"
  then show "\<exists>extra cur'. sentence_loop maxChars (s # ss) (chunks, cur)
             = sentence_loop maxChars ss (chunks @ flush cur @ extra, cur')
           \<and> (length s \<le> maxChars \<longrightarrow> extra = [] \<and> cur' = s)"
    by (rule sentence_loop_overflow)
qed

lemma whitespace_not_terminator: "isWhiteSpace c \<Longrightarrow> \<not> isTerminator c"
  by (auto simp: isWhiteSpace_def isTerminator_def)

lemma SPACE_whitespace [simp]: "isWhiteSpace SPACE"
  by (simp add: isWhiteSpace_def SPACE_def)

lemma SPACE_not_terminator [simp]: "\<not> isTerminator SPACE"
  by (simp add: whitespace_not_terminator)

lemma no_terminators_Nil [simp]: "no_terminators []"
  by (simp add: no_terminators_def)

lemma all_terminators_Nil [simp]: "all_terminators []"
  by (simp add: all_terminators_def)

lemma no_terminators_append [simp]: "no_terminators (a @ b) \<longleftrightarrow> no_terminators a \<and> no_terminators b"
  by (auto simp: no_terminators_def)

lemma all_terminators_append [simp]: "all_terminators (a @ b) \<longleftrightarrow> all_terminators a \<and> all_terminators b"
  by (auto simp: all_terminators_def)

lemma no_terminators_Cons [simp]: "no_terminators (c # cs) \<longleftrightarrow> \<not> isTerminator c \<and> no_terminators cs"
  by (auto simp: no_terminators_def)

lemma all_terminators_Cons [simp]: "all_terminators (c # cs) \<longleftrightarrow> isTerminator c \<and> all_terminators cs"
  by (auto simp: all_terminators_def)

lemma tn_Nil [simp]: "tn []" by (simp add: tn_def)
lemma nt_Nil [simp]: "nt []" by (simp add: nt_def)

lemma no_terminators_tn: "no_terminators x \<Longrightarrow> tn x"
  by (cases x) (simp_all add: tn_def)

lemma dropWhile_all_terminators: "all_terminators a \<Longrightarrow> dropWhile isTerminator a = []"
  by (simp add: all_terminators_def)

lemma dropWhile_no_terminators:
  "no_terminators a \<Longrightarrow> dropWhile (\<lambda>c. \<not> isTerminator c) a = []"
  by (simp add: no_terminators_def)

lemma all_terminators_tn: "all_terminators x \<Longrightarrow> tn x"
  by (simp add: tn_def dropWhile_all_terminators)

lemma no_terminators_dropWhile: "no_terminators x \<Longrightarrow> no_terminators (dropWhile P x)"
  by (auto simp: no_terminators_def dest: set_dropWhileD)

lemma all_terminators_dropWhile: "all_terminators x \<Longrightarrow> all_terminators (dropWhile P x)"
  by (auto simp: all_terminators_def dest: set_dropWhileD)

lemma tn_append: "tn (a @ b) \<Longrightarrow> tn a \<and> tn b"
proof (cases "all_terminators a")
  case True
  assume "tn (a @ b)"
  with True show ?thesis
    by (simp add: tn_def all_terminators_def dropWhile_append dropWhile_all_terminators)
next
  case False
  assume "tn (a @ b)"
  with False have "no_terminators (dropWhile isTerminator a @ b)"
    by (auto simp: tn_def all_terminators_def dropWhile_append1)
  then show ?thesis
    by (simp add: tn_def no_terminators_dropWhile)
qed

lemma nt_append: "nt (a @ b) \<Longrightarrow> nt a \<and> nt b"
proof (cases "no_terminators a")
  case True
  assume "nt (a @ b)"
  with True show ?thesis
    by (simp add: nt_def no_terminators_def dropWhile_append dropWhile_no_terminators)
next
  case False
  assume "nt (a @ b)"
  with False have "all_terminators (dropWhile (\<lambda>c. \<not> isTerminator c) a @ b)"
    by (auto simp: nt_def no_terminators_def dropWhile_append1)
  then show ?thesis
    by (simp add: nt_def all_terminators_dropWhile)
qed

lemma tn_snoc_no_terminators: "tn x \<Longrightarrow> no_terminators n \<Longrightarrow> tn (x @ n)"
  by (cases "all_terminators x")
     (auto simp: tn_def all_terminators_def dropWhile_append dropWhile_append1 no_terminators_dropWhile)

lemma nt_split: "nt x \<Longrightarrow> \<exists>n t. x = n @ t \<and> no_terminators n \<and> all_terminators t"
  by (rule exI [where x = "takeWhile (\<lambda>c. \<not> isTerminator c) x"],
      rule exI [where x = "dropWhile (\<lambda>c. \<not> isTerminator c) x"])
     (auto simp: nt_def no_terminators_def dest: set_takeWhileD)

lemma tn_split: "tn x \<Longrightarrow> \<exists>t n. x = t @ n \<and> all_terminators t \<and> no_terminators n"
  by (rule exI [where x = "takeWhile isTerminator x"],
      rule exI [where x = "dropWhile isTerminator x"])
     (auto simp: tn_def all_terminators_def dest: set_takeWhileD)

lemma nt_intro: "no_terminators n \<Longrightarrow> all_terminators t \<Longrightarrow> nt (n @ t)"
  by (cases "no_terminators n")
     (auto simp: nt_def no_terminators_def dropWhile_append all_terminators_dropWhile)

lemma tn_intro: "all_terminators t \<Longrightarrow> no_terminators n \<Longrightarrow> tn (t @ n)"
  by (simp add: all_terminators_tn tn_snoc_no_terminators)

lemma trim_decompose:
  "\<exists>pre post. x = pre @ trim x @ post \<and> (\<forall>c\<in>set pre. isWhiteSpace c) \<and> (\<forall>c\<in>set post. isWhiteSpace c)"
proof -
  let ?a = "takeWhile isWhiteSpace x"
  let ?y = "dropWhile isWhiteSpace x"
  let ?b = "rev (takeWhile isWhiteSpace (rev ?y))"
  have "rev ?y = takeWhile isWhiteSpace (rev ?y) @ dropWhile isWhiteSpace (rev ?y)" by simp
  then have "?y = rev (dropWhile isWhiteSpace (rev ?y)) @ ?b"
    by (metis rev_append rev_rev_ident)
  then have "x = ?a @ trim x @ ?b"
    by (metis takeWhile_dropWhile_id trim_def)
  moreover have "\<forall>c\<in>set ?a. isWhiteSpace c" by (auto dest: set_takeWhileD)
  moreover have "\<forall>c\<in>set ?b. isWhiteSpace c" by (auto dest: set_takeWhileD)
  ultimately show ?thesis by blast
qed

lemma trim_fixed:
  assumes "x \<noteq> []" "\<not> isWhiteSpace (hd x)" "\<not> isWhiteSpace (last x)"
  shows "trim x = x"
proof -
  have "dropWhile isWhiteSpace x = x" using assms by (cases x) simp_all
  moreover have "dropWhile isWhiteSpace (rev x) = rev x"
    using assms by (cases "rev x") (simp_all add: last_rev [symmetric] hd_rev)
  ultimately show ?thesis by (simp add: trim_def)
qed

lemma trim_ends:
  assumes "trim x \<noteq> []"
  shows "\<not> isWhiteSpace (hd (trim x))" and "\<not> isWhiteSpace (last (trim x))"
proof -
  let ?y = "dropWhile isWhiteSpace x"
  let ?z = "dropWhile isWhiteSpace (rev ?y)"
  from assms have z: "?z \<noteq> []" by (simp add: trim_def)
  then have "\<not> isWhiteSpace (hd ?z)" using hd_dropWhile by blast
  then show "\<not> isWhiteSpace (last (trim x))"
    using z by (simp add: trim_def last_rev)
  have y: "?y \<noteq> []"
  proof
    assume "?y = []"
    with z show False by simp
  qed
  then have hy: "\<not> isWhiteSpace (hd ?y)" using hd_dropWhile by blast
  obtain k where k: "?z = drop k (rev ?y)"
    by (metis dropWhile_eq_drop)
  have "last ?z = last (rev ?y)"
    using z k by (metis last_drop drop_eq_Nil not_le)
  then have "hd (rev ?z) = hd ?y"
    using z y by (simp add: hd_rev last_rev)
  with hy show "\<not> isWhiteSpace (hd (trim x))"
    by (simp add: trim_def)
qed

lemma trim_idem [simp]: "trim (trim x) = trim x"
proof (cases "trim x = []")
  case True
  have "trim [] = []" by (simp add: trim_def)
  with True show ?thesis by simp
next
  case False
  then show ?thesis using trim_ends [OF False] by (simp add: trim_fixed)
qed

lemma set_trim: "set (trim x) \<subseteq> set x"
  using trim_decompose [of x] by (metis Un_upper1 Un_upper2 set_append subset_trans)

lemma trim_tn: "tn x \<Longrightarrow> tn (trim x)"
  using trim_decompose [of x] by (metis tn_append)

lemma trim_nt: "nt x \<Longrightarrow> nt (trim x)"
  using trim_decompose [of x] by (metis nt_append)

lemma trim_ends_with_terminator:
  assumes "ends_with_terminator x"
  shows "ends_with_terminator (trim x)"
proof -
  obtain pre post where d: "x = pre @ trim x @ post" "\<forall>c\<in>set pre. isWhiteSpace c"
    "\<forall>c\<in>set post. isWhiteSpace c"
    using trim_decompose by blast
  have lx: "isTerminator (last x)" "x \<noteq> []" using assms by (simp_all add: ends_with_terminator_def)
  have "post = []"
  proof (rule ccontr)
    assume "post \<noteq> []"
    then have "last x = last post" using d(1) by (metis last_appendR append_is_Nil_conv)
    moreover have "last post \<in> set post" using \<open>post \<noteq> []\<close> by simp
    ultimately show False using d(3) lx whitespace_not_terminator by metis
  qed
  have "trim x \<noteq> []"
  proof
    assume "trim x = []"
    with d(1) \<open>post = []\<close> have "x = pre" by simp
    then have "last x \<in> set pre" using lx(2) by simp
    then show False using d(2) lx whitespace_not_terminator by metis
  qed
  moreover have "last x = last (trim x)"
    using d(1) \<open>post = []\<close> \<open>trim x \<noteq> []\<close> by (metis append_Nil2 last_appendR)
  ultimately show ?thesis using lx by (simp add: ends_with_terminator_def)
qed

lemma match_sentences_tn: "tn x \<Longrightarrow> match_sentences x = []"
proof (induction x)
  case Nil
  then show ?case by simp
next
  case (Cons c cs)
  show ?case
  proof (cases "isTerminator c")
    case True
    with Cons show ?thesis by (simp add: match_sentences_terminator tn_def)
  next
    case False
    with Cons.prems have "no_terminators cs" by (simp add: tn_def)
    with False show ?thesis
      by (simp add: match_sentences_body dropWhile_no_terminators)
  qed
qed

lemma match_sentences_empty_tn: "match_sentences x = [] \<Longrightarrow> tn x"
proof -
  assume e: "match_sentences x = []"
  obtain trail where "x = takeWhile isTerminator x @ concat (match_sentences x) @ trail"
    "no_terminators trail"
    using match_sentences_decompose by blast
  with e have "x = takeWhile isTerminator x @ trail" by simp
  moreover have "all_terminators (takeWhile isTerminator x)"
    by (auto simp: all_terminators_def dest: set_takeWhileD)
  ultimately show ?thesis
    using tn_intro \<open>no_terminators trail\<close> by metis
qed

lemma match_sentences_single:
  assumes "no_terminators n" "n \<noteq> []" "all_terminators t" "t \<noteq> []"
  shows "match_sentences (n @ t) = [n @ t]"
proof -
  obtain c cs where n: "n = c # cs" using assms(2) by (cases n) auto
  have c: "\<not> isTerminator c" "no_terminators cs" using assms(1) n by simp_all
  have tw: "takeWhile (\<lambda>c. \<not> isTerminator c) (cs @ t) = cs"
    using c(2) assms(3,4) by (cases t) (auto simp: takeWhile_append2 no_terminators_def takeWhile_tail)
  have dw: "dropWhile (\<lambda>c. \<not> isTerminator c) (cs @ t) = t"
    using c(2) assms(3,4) by (cases t) (auto simp: dropWhile_append2 no_terminators_def)
  have tt: "takeWhile isTerminator t = t" "dropWhile isTerminator t = []"
    using assms(3) by (simp_all add: all_terminators_def)
  show ?thesis
    using c(1) assms(4) by (simp add: n match_sentences_body tw dw tt)
qed

lemma match_sentences_covers:
  assumes "x \<noteq> []" "\<not> isTerminator (hd x)" "ends_with_terminator x"
  shows "concat (match_sentences x) = x" and "match_sentences x \<noteq> []"
proof -
  obtain trail where d: "x = takeWhile isTerminator x @ concat (match_sentences x) @ trail"
    "no_terminators trail"
    using match_sentences_decompose by blast
  have "takeWhile isTerminator x = []"
    using assms(1,2) by (cases x) simp_all
  with d have x: "x = concat (match_sentences x) @ trail" by simp
  have "trail = []"
  proof (rule ccontr)
    assume ne: "trail \<noteq> []"
    then have "last x = last trail" using x by (metis last_appendR)
    moreover have "last trail \<in> set trail" using ne by simp
    ultimately show False
      using d(2) assms(3) by (auto simp: no_terminators_def ends_with_terminator_def)
  qed
  with x show "concat (match_sentences x) = x" by simp
  with assms(1) show "match_sentences x \<noteq> []" by auto
qed

lemma sentence_loop_all_fit:
  "length (cur @ concat ss) \<le> m \<Longrightarrow> sentence_loop m ss (chunks, cur) = (chunks, cur @ concat ss)"
  by (induction ss arbitrary: cur) simp_all

lemma chunkText_fits:
  assumes "c \<noteq> []" "trim c = c" "length c \<le> m" "concat (sentences c) = c"
  shows "chunkText c m = [c]"
proof -
  have "sentence_loop m (sentences c) ([], []) = ([], [] @ concat (sentences c))"
    by (rule sentence_loop_all_fit) (simp add: assms)
  then show ?thesis using assms by (simp add: chunkText_def)
qed

lemma split_on_absent: "d \<notin> set xs \<Longrightarrow> split_on d xs = [xs]"
  by (induction xs) auto

lemma chunkText_long_word:
  assumes "trim c = c" "m < length c" "SPACE \<notin> set c" "sentences c = [c]"
  shows "chunkText c m = [c]"
proof -
  have "c \<noteq> []" using assms(2) by auto
  then show ?thesis
    using assms by (simp add: chunkText_def split_on_absent)
qed

lemma nt_cases: "nt x \<Longrightarrow> tn x \<or> ends_with_terminator x"
proof -
  assume "nt x"
  then obtain n t where x: "x = n @ t" "no_terminators n" "all_terminators t"
    using nt_split by blast
  show ?thesis
  proof (cases "t = []")
    case True
    with x show ?thesis by (simp add: no_terminators_tn)
  next
    case False
    then have "last t \<in> set t" by simp
    with x False show ?thesis by (auto simp: ends_with_terminator_def all_terminators_def)
  qed
qed

lemma run_ok_trim: "run_ok m x \<Longrightarrow> ok_chunk m (trim x)"
proof -
  assume r: "run_ok m x"
  have len: "length (trim x) \<le> length x" by (rule length_trim)
  have sub: "SPACE \<notin> set x \<Longrightarrow> SPACE \<notin> set (trim x)" using set_trim by blast
  consider (fit) "length x \<le> m" "ends_with_terminator x \<or> tn x"
    | (long) "m < length x" "SPACE \<notin> set x" "nt x \<or> tn x"
    using r by (auto simp: run_ok_def)
  then have "run_ok m (trim x)"
  proof cases
    case fit
    then show ?thesis
      using len trim_tn trim_ends_with_terminator by (auto simp: run_ok_def)
  next
    case long
    then have shape: "nt (trim x) \<or> tn (trim x)" using trim_nt trim_tn by blast
    show ?thesis
    proof (cases "m < length (trim x)")
      case True
      with long shape sub show ?thesis by (simp add: run_ok_def)
    next
      case False
      with shape nt_cases show ?thesis by (auto simp: run_ok_def)
    qed
  qed
  then show ?thesis by (simp add: ok_chunk_def)
qed

lemma ok_chunk_fixpoint:
  assumes ok: "ok_chunk m c" and ne: "c \<noteq> []"
    and lead: "\<not> (isTerminator (hd c) \<and> match_sentences c \<noteq> [])"
  shows "chunkText c m = [c]"
proof -
  have tr: "trim c = c" and r: "run_ok m c" using ok by (simp_all add: ok_chunk_def)
  have no_match: "chunkText c m = [c]" if "match_sentences c = []" "length c \<le> m"
    using that ne tr by (intro chunkText_fits) (simp_all add: sentences_def)
  have no_match_long: "chunkText c m = [c]" if "match_sentences c = []" "m < length c" "SPACE \<notin> set c"
    using that tr by (intro chunkText_long_word) (simp_all add: sentences_def)
  consider (fit_tn) "length c \<le> m" "tn c"
    | (fit_end) "length c \<le> m" "ends_with_terminator c"
    | (long_tn) "m < length c" "SPACE \<notin> set c" "tn c"
    | (long_nt) "m < length c" "SPACE \<notin> set c" "nt c"
    using r by (auto simp: run_ok_def)
  then show ?thesis
  proof cases
    case fit_tn
    then show ?thesis using no_match match_sentences_tn by simp
  next
    case fit_end
    show ?thesis
    proof (cases "match_sentences c = []")
      case True
      with fit_end no_match show ?thesis by simp
    next
      case False
      with lead have h: "\<not> isTerminator (hd c)" by simp
      have cov: "concat (match_sentences c) = c"
        using match_sentences_covers(1) [OF ne h fit_end(2)] .
      have "sentences c = match_sentences c"
        using False by (simp add: sentences_def split: list.splits)
      with cov fit_end ne tr show ?thesis by (intro chunkText_fits) simp_all
    qed
  next
    case long_tn
    then show ?thesis using no_match_long match_sentences_tn by simp
  next
    case long_nt
    then obtain n t where x: "c = n @ t" "no_terminators n" "all_terminators t"
      using nt_split by blast
    show ?thesis
    proof (cases "n = [] \<or> t = []")
      case True
      with x have "tn c" by (auto simp: all_terminators_tn no_terminators_tn)
      with long_nt show ?thesis using no_match_long match_sentences_tn by simp
    next
      case False
      with x have "match_sentences c = [c]" by (simp add: match_sentences_single)
      then have "sentences c = [c]" by (simp add: sentences_def)
      with long_nt tr show ?thesis by (intro chunkText_long_word) simp_all
    qed
  qed
qed

lemma split_on_nonempty [simp]: "split_on d xs \<noteq> []"
  by (induction xs) (auto split: list.splits)

lemma split_on_no_delimiter: "w \<in> set (split_on d xs) \<Longrightarrow> d \<notin> set w"
  by (induction xs arbitrary: w) (auto split: if_splits list.splits)

lemma split_on_subset: "w \<in> set (split_on d xs) \<Longrightarrow> set w \<subseteq> set xs"
proof (induction xs arbitrary: w)
  case Nil
  then show ?case by simp
next
  case (Cons x xs)
  show ?case
  proof (cases "x = d")
    case True
    with Cons show ?thesis by auto
  next
    case False
    obtain v vs where sp: "split_on d xs = v # vs"
      by (cases "split_on d xs") simp_all
    with Cons.prems False have "w = x # v \<or> w \<in> set vs" by simp
    moreover have "set v \<subseteq> set xs" "\<forall>u\<in>set vs. set u \<subseteq> set xs"
      using Cons.IH sp by simp_all
    ultimately show ?thesis by auto
  qed
qed

lemma split_on_prefix:
  "d \<notin> set xs \<Longrightarrow> split_on d (xs @ ys) = (xs @ hd (split_on d ys)) # tl (split_on d ys)"
  by (induction xs) (auto split: list.splits)

lemma split_on_suffix:
  "d \<notin> set ys \<Longrightarrow> split_on d (xs @ ys) = butlast (split_on d xs) @ [last (split_on d xs) @ ys]"
proof (induction xs)
  case Nil
  then show ?case by (simp add: split_on_absent)
next
  case (Cons x xs)
  then show ?case
    by (cases "split_on d xs") (auto split: list.splits)
qed

lemma all_terminators_no_space: "all_terminators t \<Longrightarrow> SPACE \<notin> set t"
  using SPACE_not_terminator by (auto simp: all_terminators_def)

lemma words_no_terminators:
  "no_terminators x \<Longrightarrow> w \<in> set (split_on SPACE x) \<Longrightarrow> no_terminators w"
  using split_on_subset [of w SPACE x] by (auto simp: no_terminators_def)

lemma sentence_words:
  assumes "is_sentence s"
  shows "sentence_word_list (split_on SPACE s)"
proof -
  obtain body terms where s: "s = body @ terms" "body \<noteq> []" "terms \<noteq> []"
    "no_terminators body" "all_terminators terms"
    using assms by (auto simp: is_sentence_def)
  let ?ws = "split_on SPACE body"
  have sp: "split_on SPACE s = butlast ?ws @ [last ?ws @ terms]"
    unfolding s(1) by (rule split_on_suffix) (rule all_terminators_no_space [OF s(5)])
  have lw: "last ?ws \<in> set ?ws" by simp
  have "no_terminators (last ?ws)" using words_no_terminators [OF s(4) lw] .
  then have "nt (last ?ws @ terms)" using s(5) by (rule nt_intro)
  moreover have "ends_with_terminator (last ?ws @ terms)"
    using s(3,5) by (auto simp: ends_with_terminator_def all_terminators_def)
  moreover have "\<forall>w\<in>set (butlast ?ws). no_terminators w"
    using words_no_terminators [OF s(4)] by (auto dest: in_set_butlastD)
  moreover have "\<forall>w\<in>set (split_on SPACE s). SPACE \<notin> set w"
    by (auto dest: split_on_no_delimiter)
  ultimately show ?thesis
    by (simp add: sentence_word_list_def sp)
qed

lemma no_terminators_run_ok:
  "no_terminators x \<Longrightarrow> length x \<le> m \<or> SPACE \<notin> set x \<Longrightarrow> run_ok m x"
  by (auto simp: run_ok_def no_terminators_tn)

lemma tn_run_ok: "tn x \<Longrightarrow> length x \<le> m \<or> SPACE \<notin> set x \<Longrightarrow> run_ok m x"
  by (auto simp: run_ok_def)

lemma word_loop_sentence:
  assumes "sentence_word_list ws"
    and "no_terminators temp" and "length temp \<le> m \<or> SPACE \<notin> set temp"
    and "\<forall>c\<in>set chunks. ok_chunk m c"
    and "word_loop m ws (chunks, temp) = (chunks', temp')"
  shows "(\<forall>c\<in>set chunks'. ok_chunk m c) \<and> ends_with_terminator temp' \<and> run_ok m temp'"
  using assms
proof (induction ws arbitrary: chunks temp)
  case Nil
  then show ?case by (simp add: sentence_word_list_def)
next
  case (Cons w ws)
  let ?flushed = "if temp \<noteq> [] then chunks @ [trim temp] else chunks"
  have fl: "\<forall>c\<in>set ?flushed. ok_chunk m c"
    using Cons.prems(2,3,4) by (simp add: run_ok_trim no_terminators_run_ok)
  have wsp: "SPACE \<notin> set w" using Cons.prems(1) by (simp add: sentence_word_list_def)
  show ?case
  proof (cases "ws = []")
    case True
    have w: "nt w" "ends_with_terminator w"
      using Cons.prems(1) True by (simp_all add: sentence_word_list_def)
    show ?thesis
    proof (cases "length (temp @ [SPACE] @ w) \<le> m")
      case fits: True
      let ?t = "if temp \<noteq> [] then temp @ [SPACE] @ w else w"
      have "ends_with_terminator ?t" using w(2) by (auto simp: ends_with_terminator_def)
      moreover have "length ?t \<le> m" using fits by simp
      ultimately have "run_ok m ?t" by (simp add: run_ok_def)
      with \<open>ends_with_terminator ?t\<close> Cons.prems(4,5) True fits show ?thesis by auto
    next
      case False
      have "run_ok m w"
        using w wsp by (cases "length w \<le> m") (simp_all add: run_ok_def)
      with w(2) fl Cons.prems(5) True False show ?thesis by auto
    qed
  next
    case more: False
    then have rest: "sentence_word_list ws" and w: "no_terminators w"
      using Cons.prems(1) by (simp_all add: sentence_word_list_def)
    show ?thesis
    proof (cases "length (temp @ [SPACE] @ w) \<le> m")
      case fits: True
      let ?t = "if temp \<noteq> [] then temp @ [SPACE] @ w else w"
      have "no_terminators ?t" using w Cons.prems(2) by simp
      moreover have "length ?t \<le> m" using fits by simp
      moreover have "word_loop m ws (chunks, ?t) = (chunks', temp')"
        using Cons.prems(5) fits by simp
      ultimately show ?thesis
        using Cons.IH [OF rest, of ?t chunks] Cons.prems(4) by blast
    next
      case False
      have "word_loop m ws (?flushed, w) = (chunks', temp')"
        using Cons.prems(5) False by simp
      then show ?thesis
        using Cons.IH [OF rest w _ fl] wsp by blast
    qed
  qed
qed

lemma cur_ok_flush: "cur_ok m cur \<Longrightarrow> cur \<noteq> [] \<Longrightarrow> ok_chunk m (trim cur)"
  by (simp add: cur_ok_def run_ok_trim)

lemma is_sentence_ends: "is_sentence s \<Longrightarrow> ends_with_terminator s"
  by (auto simp: is_sentence_def ends_with_terminator_def all_terminators_def)

lemma sentence_loop_sentences:
  assumes "\<forall>s\<in>set ss. is_sentence s"
    and "\<forall>c\<in>set chunks. ok_chunk m c" and "cur_ok m cur"
    and "sentence_loop m ss (chunks, cur) = (chunks', cur')"
  shows "(\<forall>c\<in>set chunks'. ok_chunk m c) \<and> cur_ok m cur'"
  using assms
proof (induction ss arbitrary: chunks cur)
  case Nil
  then show ?case by simp
next
  case (Cons s ss)
  let ?chunks1 = "if cur \<noteq> [] then chunks @ [trim cur] else chunks"
  have c1: "\<forall>c\<in>set ?chunks1. ok_chunk m c"
    using Cons.prems(2,3) by (simp add: cur_ok_flush)
  have s: "is_sentence s" and rest: "\<forall>s\<in>set ss. is_sentence s" using Cons.prems(1) by simp_all
  have se: "ends_with_terminator s" using s by (rule is_sentence_ends)
  show ?case
  proof (cases "length (cur @ s) \<le> m")
    case True
    have "ends_with_terminator (cur @ s)" using se by (auto simp: ends_with_terminator_def)
    with True have "cur_ok m (cur @ s)" by (simp add: cur_ok_def run_ok_def)
    moreover have "sentence_loop m ss (chunks, cur @ s) = (chunks', cur')"
      using Cons.prems(4) True by simp
    ultimately show ?thesis using Cons.IH [OF rest Cons.prems(2)] by blast
  next
    case over: False
    show ?thesis
    proof (cases "length s > m")
      case True
      obtain chunks2 temp where wl: "word_loop m (split_on SPACE s) (?chunks1, []) = (chunks2, temp)"
        by (cases "word_loop m (split_on SPACE s) (?chunks1, [])") auto
      have r: "(\<forall>c\<in>set chunks2. ok_chunk m c) \<and> ends_with_terminator temp \<and> run_ok m temp"
        using word_loop_sentence [OF sentence_words [OF s] _ _ c1 wl] by simp
      then have "temp \<noteq> []" by (auto simp: ends_with_terminator_def)
      then have "sentence_loop m ss (chunks2, temp) = (chunks', cur')"
        using Cons.prems(4) over True wl by (simp add: Let_def)
      moreover have "cur_ok m temp" using r by (simp add: cur_ok_def)
      ultimately show ?thesis using Cons.IH [OF rest] r by blast
    next
      case False
      then have "cur_ok m s" using se by (simp add: cur_ok_def run_ok_def)
      moreover have "sentence_loop m ss (?chunks1, s) = (chunks', cur')"
        using Cons.prems(4) over False by (simp add: Let_def)
      ultimately show ?thesis using Cons.IH [OF rest c1] by blast
    qed
  qed
qed

lemma word_loop_unterminated:
  assumes "\<forall>w\<in>set ws. no_terminators w \<and> SPACE \<notin> set w"
    and "tn temp" and "length temp \<le> m \<or> SPACE \<notin> set temp"
    and "\<forall>c\<in>set chunks. ok_chunk m c"
    and "word_loop m ws (chunks, temp) = (chunks', temp')"
  shows "(\<forall>c\<in>set chunks'. ok_chunk m c) \<and> run_ok m temp'"
  using assms
proof (induction ws arbitrary: chunks temp)
  case Nil
  then show ?case by (simp add: tn_run_ok)
next
  case (Cons w ws)
  let ?flushed = "if temp \<noteq> [] then chunks @ [trim temp] else chunks"
  have fl: "\<forall>c\<in>set ?flushed. ok_chunk m c"
    using Cons.prems(2,3,4) by (simp add: run_ok_trim tn_run_ok)
  have w: "no_terminators w" "SPACE \<notin> set w" and rest: "\<forall>w\<in>set ws. no_terminators w \<and> SPACE \<notin> set w"
    using Cons.prems(1) by simp_all
  show ?case
  proof (cases "length (temp @ [SPACE] @ w) \<le> m")
    case fits: True
    let ?t = "if temp \<noteq> [] then temp @ [SPACE] @ w else w"
    have "tn ?t"
      using w(1) Cons.prems(2) tn_snoc_no_terminators [of temp "[SPACE] @ w"]
      by (simp add: no_terminators_tn)
    moreover have "length ?t \<le> m" using fits by simp
    moreover have "word_loop m ws (chunks, ?t) = (chunks', temp')"
      using Cons.prems(5) fits by simp
    ultimately show ?thesis
      using Cons.IH [OF rest, of ?t chunks] Cons.prems(4) by blast
  next
    case False
    have "word_loop m ws (?flushed, w) = (chunks', temp')"
      using Cons.prems(5) False by simp
    then show ?thesis
      using Cons.IH [OF rest no_terminators_tn [OF w(1)] _ fl] w(2) by blast
  qed
qed

lemma tn_words:
  assumes "tn x"
  shows "tn (hd (split_on SPACE x)) \<and> (\<forall>w\<in>set (tl (split_on SPACE x)). no_terminators w)"
proof -
  obtain t n where x: "x = t @ n" "all_terminators t" "no_terminators n"
    using assms tn_split by blast
  let ?ws = "split_on SPACE n"
  have sp: "split_on SPACE x = (t @ hd ?ws) # tl ?ws"
    unfolding x(1) by (rule split_on_prefix) (rule all_terminators_no_space [OF x(2)])
  have "hd ?ws \<in> set ?ws" by simp
  then have "no_terminators (hd ?ws)" using words_no_terminators [OF x(3)] by blast
  then have "tn (t @ hd ?ws)" using x(2) by (simp add: tn_intro)
  moreover have "\<forall>w\<in>set (tl ?ws). no_terminators w"
  proof
    fix w assume "w \<in> set (tl ?ws)"
    then have "w \<in> set ?ws" by (cases ?ws) simp_all
    then show "no_terminators w" by (rule words_no_terminators [OF x(3)])
  qed
  ultimately show ?thesis by (simp add: sp)
qed

lemma chunkText_unterminated_ok:
  assumes nm: "match_sentences t = []"
  shows "\<forall>c\<in>set (chunkText t m). ok_chunk m c"
proof -
  have tn: "tn t" using nm by (rule match_sentences_empty_tn)
  have ss: "sentences t = [t]" using nm by (simp add: sentences_def)
  show ?thesis
  proof (cases "length t \<le> m")
    case True
    have "run_ok m t" using True tn by (simp add: run_ok_def)
    then show ?thesis using True by (simp add: chunkText_def ss run_ok_trim)
  next
    case False
    let ?ws = "split_on SPACE t"
    obtain w rest where ws: "?ws = w # rest" by (cases ?ws) simp_all
    have w: "tn w" and rest: "\<forall>u\<in>set rest. no_terminators u"
      using tn_words [OF tn] ws by simp_all
    have nsp: "\<forall>u\<in>set ?ws. SPACE \<notin> set u" by (auto dest: split_on_no_delimiter)
    obtain chunks' temp' where wl: "word_loop m rest ([], w) = (chunks', temp')"
      by (cases "word_loop m rest ([], w)") auto
    have first: "word_loop m ?ws ([], []) = (chunks', temp')"
      using wl by (simp add: ws)
    have r: "(\<forall>c\<in>set chunks'. ok_chunk m c) \<and> run_ok m temp'"
      using word_loop_unterminated [OF _ w _ _ wl] rest nsp ws by simp
    have "chunkText t m = (if temp' \<noteq> [] then chunks' @ [trim temp'] else chunks')"
      using False first by (simp add: chunkText_def ss Let_def)
    with r show ?thesis by (simp add: run_ok_trim)
  qed
qed

lemma chunkText_sentences_ok:
  assumes m: "match_sentences t \<noteq> []"
  shows "\<forall>c\<in>set (chunkText t m). ok_chunk m c"
proof -
  have ss: "sentences t = match_sentences t"
    using m by (simp add: sentences_def split: list.splits)
  obtain chunks' cur' where sl: "sentence_loop m (sentences t) ([], []) = (chunks', cur')"
    by (cases "sentence_loop m (sentences t) ([], [])") auto
  have "(\<forall>c\<in>set chunks'. ok_chunk m c) \<and> cur_ok m cur'"
    using sentence_loop_sentences [OF _ _ _ sl] match_sentences_shape [of t]
    by (simp add: ss cur_ok_def)
  then show ?thesis
    using sl by (simp add: chunkText_def cur_ok_flush)
qed

text \<open>
  Claim C9, as the code has it. A chunk of \<open>chunkText\<close> that is not empty and does not
  begin with a terminator that a further sentence follows comes back unchanged, as the
  single chunk, when it is chunked again with the same \<open>maxChars\<close>.
\<close>

theorem rechunk_fixpoint:
  assumes "c \<in> set (chunkText txt maxChars)" and "c \<noteq> []"
    and "\<not> (isTerminator (hd c) \<and> match_sentences c \<noteq> [])"
  shows "chunkText c maxChars = [c]"
proof -
  have "ok_chunk maxChars c"
    using assms(1) chunkText_unterminated_ok [of "txt" maxChars] chunkText_sentences_ok [of "txt" maxChars]
    by (cases "match_sentences txt = []") blast+
  then show ?thesis using assms(2,3) by (rule ok_chunk_fixpoint)
qed

lemmas eval_chunk =
  chunkText_def sentences_def match_sentences.simps js_def isTerminator_def trim_def
  isWhiteSpace_def SPACE_def



theorem chunker_sentences_and_greedy_packing_witness:
  "sentences (js ''Hi there. Bye now!'') = [js ''Hi there.'', js '' Bye now!'']
   \<and> chunkText (js ''Hi there. Bye now!'') 10
       = greedy_pack 10 [] (sentences (js ''Hi there. Bye now!''))
   \<and> greedy_pack 10 [] (sentences (js ''Hi there. Bye now!'')) = [js ''Hi there.'', js ''Bye now!'']"
proof -
  have s: "sentences (js ''Hi there. Bye now!'') = [js ''Hi there.'', js '' Bye now!'']"
    by (simp add: eval_chunk)
  have g: "greedy_pack 10 [] (sentences (js ''Hi there. Bye now!''))
      = [js ''Hi there.'', js ''Bye now!'']"
    unfolding s by (simp add: flush_def js_def trim_def isWhiteSpace_def)
  have l: "\<forall>s\<in>set (sentences (js ''Hi there. Bye now!'')). length s \<le> 10"
    unfolding s by (simp add: js_def)
  have "(\<forall>s\<in>set (sentences (js ''Hi there. Bye now!'')). length s \<le> 10) \<longrightarrow>
        chunkText (js ''Hi there. Bye now!'') 10
          = greedy_pack 10 [] (sentences (js ''Hi there. Bye now!''))"
    using chunker_sentences_and_greedy_packing [of 10 "js ''Hi there. Bye now!''"] by blast
  with l have e: "chunkText (js ''Hi there. Bye now!'') 10
          = greedy_pack 10 [] (sentences (js ''Hi there. Bye now!''))"
    by blast
  from s e g show ?thesis by (intro conjI)
qed

text \<open>
  Claim C6 as stated fails on "v1.2 is out. more": the text is cut after "v1.", where no
  whitespace follows the terminator, and the trailing " more" is in no sentence and in no
  chunk.
\<close>

theorem chunker_sentences_counterexample:
  "sentences (js ''v1.2 is out. more'') = [js ''v1.'', js ''2 is out.'']
   \<and> chunkText (js ''v1.2 is out. more'') 600 = [js ''v1.2 is out.'']"
  by (simp add: eval_chunk)

theorem rechunk_fixpoint_witness:
  "js ''Bye now!'' \<in> set (chunkText (js ''Hi there. Bye now!'') 10)
   \<and> chunkText (js ''Bye now!'') 10 = [js ''Bye now!'']"
proof -
  have c: "chunkText (js ''Hi there. Bye now!'') 10 = [js ''Hi there.'', js ''Bye now!'']"
    by (simp add: eval_chunk)
  have h: "js ''Bye now!'' \<noteq> []" "\<not> isTerminator (hd (js ''Bye now!''))"
    by (simp_all add: js_def isTerminator_def)
  show ?thesis
    using rechunk_fixpoint [of "js ''Bye now!''" "js ''Hi there. Bye now!''" 10] c h
    by simp
qed

text \<open>
  Claim C9 as stated, for every chunk: the chunk ". a." of " . a." comes back as "a.", and
  the empty chunk of " " comes back as no chunk at all.
\<close>

theorem rechunk_counterexample:
  "chunkText (js '' . a.'') 600 = [js ''. a.'']
   \<and> chunkText (js ''. a.'') 600 = [js ''a.'']
   \<and> chunkText (js '' '') 600 = [[]]
   \<and> chunkText [] 600 = []"
  by (simp add: eval_chunk)

section \<open>Population of the knowledge store\<close>

lemma record_step_eq:
  "record_step texts embeddings i (records, failureCount) =
     (if embedded_ok embeddings i
      then (records @ [\<lparr>record_text = texts ! i, embedding = the (element_at embeddings i)\<rparr>], failureCount)
      else (records, failureCount + 1))"
  by (simp add: record_step_def embedded_ok_def split: option.splits)

lemma fold_record_step:
  "fold (record_step texts embeddings) [0..<n] ([], 0) =
     (map (\<lambda>i. \<lparr>record_text = texts ! i, embedding = the (element_at embeddings i)\<rparr>)
        (filter (embedded_ok embeddings) [0..<n]),
      failures embeddings n)"
  by (induction n) (simp_all add: record_step_eq failures_def)

lemma build_records_eq:
  "build_records texts embeddings = (zipped_records texts embeddings, failures embeddings (length texts))"
  by (simp add: build_records_def fold_record_step zipped_records_def)

lemma length_zipped_records:
  "length (zipped_records texts embeddings) + failures embeddings (length texts) = length texts"
  using sum_length_filter_compl [of "embedded_ok embeddings" "[0..<length texts]"]
  by (simp add: zipped_records_def failures_def)

lemma initialize_initialized:
  "initialize env svc = Inr svc' \<Longrightarrow> initialized svc'"
  by (auto simp: initialize_def split: if_splits option.splits)

lemma zipped_records_texts:
  "r \<in> set (zipped_records texts embeddings) \<Longrightarrow> record_text r \<in> set texts"
  by (auto simp: zipped_records_def)

lemma validTexts_eq:
  "validTexts pgs =
     filter (\<lambda>t. 10 \<le> length (trim t)) (concat (map (\<lambda>page. chunkText (content page) 600) pgs))"
  by (simp add: validTexts_def collect_texts_def KNOWLEDGE_CONFIG_def)

text \<open>
  Claim C3. Let \<open>chunks\<close> be the chunks of the pages, in order, and \<open>valid\<close> those of them
  whose trimmed length is at least 10, and let the remote service return \<open>embeddings\<close>
  for the \<open>n \<ge> 1\<close> valid chunks. If more than half of the \<open>n\<close> indices hold a missing or
  empty embedding, \<open>loadDocumentationWithEmbeddings\<close> fails with the failure-rate error;
  if at most half do, it succeeds and the store holds exactly the valid chunk texts
  zipped positionally with their non-empty embeddings, \<open>n\<close> minus the number of failures
  in all, so that every stored text is a chunk of trimmed length at least 10. When no
  chunk is valid the load fails, with "No valid text chunks found for embedding" once
  the service is initialised.
\<close>

theorem populate_failure_threshold:
  assumes "chunks = concat (map (\<lambda>page. chunkText (content page) 600) pgs)"
    and "valid = filter (\<lambda>t. 10 \<le> length (trim t)) chunks"
  shows "(valid = [] \<longrightarrow>
      isl (snd (loadDocumentationWithEmbeddings env km pgs))
      \<and> (initialize env (embedderService km) = Inr svc \<longrightarrow>
           snd (loadDocumentationWithEmbeddings env km pgs) = Inl NoValidTextChunks))
   \<and> (initialize env (embedderService km) = Inr svc
      \<and> embed_batches env valid = Inr embeddings
      \<and> n = length valid \<and> 1 \<le> n \<longrightarrow>
        (n < 2 * failures embeddings n \<longrightarrow>
            snd (loadDocumentationWithEmbeddings env km pgs)
              = Inl (EmbeddingFailureRateTooHigh (failures embeddings n) n))
         \<and> (2 * failures embeddings n \<le> n \<longrightarrow>
            snd (loadDocumentationWithEmbeddings env km pgs) = Inr ()
            \<and> getEmbeddedRecords (fst (loadDocumentationWithEmbeddings env km pgs))
                = zipped_records valid embeddings
            \<and> length (getEmbeddedRecords (fst (loadDocumentationWithEmbeddings env km pgs)))
                = n - failures embeddings n
            \<and> (\<forall>r\<in>set (getEmbeddedRecords (fst (loadDocumentationWithEmbeddings env km pgs))).
                  record_text r \<in> set chunks \<and> 10 \<le> length (trim (record_text r)))))"
proof -
  have v: "validTexts pgs = valid"
    using assms by (simp add: validTexts_eq)
  have empty: "isl (snd (loadDocumentationWithEmbeddings env km pgs))"
    "initialize env (embedderService km) = Inr svc \<Longrightarrow>
       snd (loadDocumentationWithEmbeddings env km pgs) = Inl NoValidTextChunks"
    if "valid = []"
    using that v by (simp_all add: loadDocumentationWithEmbeddings_def Let_def split: sum.splits)
  have loaded: "loadDocumentationWithEmbeddings env km pgs =
      (km\<lparr>embeddedRecords := zipped_records valid embeddings, embedderService := svc\<rparr>,
       if n < 2 * failures embeddings n
       then Inl (EmbeddingFailureRateTooHigh (failures embeddings n) n) else Inr ())"
    and len: "length (zipped_records valid embeddings) = n - failures embeddings n"
    if init: "initialize env (embedderService km) = Inr svc"
      and batch: "embed_batches env valid = Inr embeddings"
      and n: "n = length valid" "1 \<le> n"
  proof -
    have svc: "initialized svc" using init by (rule initialize_initialized)
    have eb: "embedBatch env svc valid = Inr (svc, embeddings)"
      using svc batch by (simp add: embedBatch_def)
    have rate: "real (failures embeddings n) / real n > 0.5 \<longleftrightarrow> n < 2 * failures embeddings n"
      using n(2) by (simp add: field_simps) linarith
    have ne: "valid \<noteq> []" using n by auto
    show "loadDocumentationWithEmbeddings env km pgs =
      (km\<lparr>embeddedRecords := zipped_records valid embeddings, embedderService := svc\<rparr>,
       if n < 2 * failures embeddings n
       then Inl (EmbeddingFailureRateTooHigh (failures embeddings n) n) else Inr ())"
      using init eb ne rate n(1)
      by (simp add: loadDocumentationWithEmbeddings_def Let_def build_records_eq v)
    show "length (zipped_records valid embeddings) = n - failures embeddings n"
      using length_zipped_records [of valid embeddings] n(1) by simp
  qed
  have texts: "record_text r \<in> set chunks \<and> 10 \<le> length (trim (record_text r))"
    if "r \<in> set (zipped_records valid embeddings)" for r
    using zipped_records_texts [OF that] assms(2) by simp
  show ?thesis
    using empty loaded len texts by (auto simp: getEmbeddedRecords_def)
qed

lemma twelve_chunks:
  "concat (map (\<lambda>page. chunkText (content page) 600) twelve_pages) = map js
     [''Page zero.'', ''Page one..'', ''Tiny.'', ''Page two..'', ''Page three'', ''Page four.'',
      ''Page five.'', ''Too short'', ''Page six..'', ''Page seven'', ''Page eight'', ''Page nine.'']"
  by (simp add: twelve_pages_def page_of_def eval_chunk)

lemma twelve_valid:
  "filter (\<lambda>t. 10 \<le> length (trim t))
     (concat (map (\<lambda>page. chunkText (content page) 600) twelve_pages)) = map js
     [''Page zero.'', ''Page one..'', ''Page two..'', ''Page three'', ''Page four.'',
      ''Page five.'', ''Page six..'', ''Page seven'', ''Page eight'', ''Page nine.'']"
  unfolding twelve_chunks by (simp add: js_def trim_def isWhiteSpace_def)

lemma short_chunks:
  "concat (map (\<lambda>page. chunkText (content page) 600) short_pages) = [js ''Tiny.'', js ''Too short'']"
  by (simp add: short_pages_def page_of_def eval_chunk)

lemma short_valid:
  "filter (\<lambda>t. 10 \<le> length (trim t))
     (concat (map (\<lambda>page. chunkText (content page) 600) short_pages)) = []"
  unfolding short_chunks by (simp add: js_def trim_def isWhiteSpace_def)

lemma three_valid:
  "validTexts three_pages = map js
     [''Embeddings convert text into dense numeric vectors.'',
      ''The crawler follows documentation links in batches.'',
      ''Retrieval ranks stored chunks by cosine similarity.'']"
  by (simp add: validTexts_def collect_texts_def three_pages_def page_of_def KNOWLEDGE_CONFIG_def eval_chunk)

lemma embed_batches_answering:
  "texts \<noteq> [] \<Longrightarrow> length texts \<le> 100 \<Longrightarrow> embed_batches (answering embeddings) texts = Inr embeddings"
  by (subst embed_batches.simps, subst embed_batches.simps)
     (simp add: answering_def EMBEDDER_BATCH_SIZE_def)

lemma failures_six: "failures six_failures 10 = 6"
  by (simp add: failures_def embedded_ok_def element_at_def six_failures_def upt_rec)

lemma failures_four: "failures four_failures 10 = 4"
  by (simp add: failures_def embedded_ok_def element_at_def four_failures_def upt_rec)

theorem populate_failure_threshold_witness:
  "snd (loadDocumentationWithEmbeddings (answering six_failures) new_manager twelve_pages)
     = Inl (EmbeddingFailureRateTooHigh 6 10)
   \<and> snd (loadDocumentationWithEmbeddings (answering four_failures) new_manager twelve_pages) = Inr ()
   \<and> getEmbeddedRecords
       (fst (loadDocumentationWithEmbeddings (answering four_failures) new_manager twelve_pages))
     = [\<lparr>record_text = js ''Page zero.'', embedding = [1, 0]\<rparr>,
        \<lparr>record_text = js ''Page one..'', embedding = [0, 1]\<rparr>,
        \<lparr>record_text = js ''Page two..'', embedding = [1, 1]\<rparr>,
        \<lparr>record_text = js ''Page three'', embedding = [2, 1]\<rparr>,
        \<lparr>record_text = js ''Page four.'', embedding = [1, 2]\<rparr>,
        \<lparr>record_text = js ''Page five.'', embedding = [2, 2]\<rparr>]
   \<and> length (getEmbeddedRecords
               (fst (loadDocumentationWithEmbeddings (answering four_failures) new_manager twelve_pages)))
       = 6
   \<and> length (concat (map (\<lambda>page. chunkText (content page) 600) twelve_pages)) = 12
   \<and> concat (map (\<lambda>page. chunkText (content page) 600) short_pages) = [js ''Tiny.'', js ''Too short'']
   \<and> snd (loadDocumentationWithEmbeddings (answering four_failures) new_manager short_pages)
       = Inl NoValidTextChunks"
proof -
  have init: "initialize (answering e) (embedderService new_manager) = Inr \<lparr>initialized = True\<rparr>" for e
    by (simp add: initialize_def answering_def new_manager_def)
  have batch: "embed_batches (answering e)
                 (filter (\<lambda>t. 10 \<le> length (trim t))
                    (concat (map (\<lambda>page. chunkText (content page) 600) twelve_pages))) = Inr e" for e
    by (rule embed_batches_answering) (simp_all add: twelve_valid)
  have zipped: "zipped_records
                  (filter (\<lambda>t. 10 \<le> length (trim t))
                     (concat (map (\<lambda>page. chunkText (content page) 600) twelve_pages)))
                  four_failures
     = [\<lparr>record_text = js ''Page zero.'', embedding = [1, 0]\<rparr>,
        \<lparr>record_text = js ''Page one..'', embedding = [0, 1]\<rparr>,
        \<lparr>record_text = js ''Page two..'', embedding = [1, 1]\<rparr>,
        \<lparr>record_text = js ''Page three'', embedding = [2, 1]\<rparr>,
        \<lparr>record_text = js ''Page four.'', embedding = [1, 2]\<rparr>,
        \<lparr>record_text = js ''Page five.'', embedding = [2, 2]\<rparr>]"
    unfolding twelve_valid
    by (simp add: zipped_records_def embedded_ok_def element_at_def four_failures_def upt_rec)
  have six: "snd (loadDocumentationWithEmbeddings (answering six_failures) new_manager twelve_pages)
     = Inl (EmbeddingFailureRateTooHigh 6 10)"
    using populate_failure_threshold [OF refl refl, of twelve_pages "answering six_failures"
        new_manager "\<lparr>initialized = True\<rparr>" six_failures 10]
      init batch failures_six
    by (simp add: twelve_valid)
  have four: "snd (loadDocumentationWithEmbeddings (answering four_failures) new_manager twelve_pages) = Inr ()
      \<and> getEmbeddedRecords
           (fst (loadDocumentationWithEmbeddings (answering four_failures) new_manager twelve_pages))
         = zipped_records
                  (filter (\<lambda>t. 10 \<le> length (trim t))
                     (concat (map (\<lambda>page. chunkText (content page) 600) twelve_pages)))
                  four_failures"
    using populate_failure_threshold [OF refl refl, of twelve_pages "answering four_failures"
        new_manager "\<lparr>initialized = True\<rparr>" four_failures 10]
      init batch failures_four
    by (simp add: twelve_valid)
  have none: "snd (loadDocumentationWithEmbeddings (answering four_failures) new_manager short_pages)
       = Inl NoValidTextChunks"
    using populate_failure_threshold [OF refl refl, of short_pages "answering four_failures" new_manager
        "\<lparr>initialized = True\<rparr>" four_failures 0]
      init
    by (simp add: short_valid)
  show ?thesis
    using six four none zipped by (simp add: twelve_chunks short_chunks)
qed

text \<open>
  Claim C5, at a failing input. Three valid chunks of which two come back without an
  embedding: the load fails with the failure-rate error (2 of 3), and the manager keeps
  the one record that was embedded, so that \<open>hasEmbeddings\<close> holds. The other failures
  of a load leave the store empty: a batch call that throws, and no valid chunk.
\<close>

theorem failed_load_keeps_partial_records:
  "loadDocumentationWithEmbeddings (answering [Some [1, 0], None, None]) new_manager three_pages
     = (\<lparr>embeddedRecords = [\<lparr>record_text = js ''Embeddings convert text into dense numeric vectors.'',
           embedding = [1, 0]\<rparr>],
         embedderService = \<lparr>initialized = True\<rparr>\<rparr>,
        Inl (EmbeddingFailureRateTooHigh 2 3))
   \<and> hasEmbeddings
        (fst (loadDocumentationWithEmbeddings (answering [Some [1, 0], None, None]) new_manager
                three_pages))
   \<and> loadDocumentationWithEmbeddings
        ((answering [])\<lparr>embedBatch_remote := (\<lambda>ts. Inl (ServiceError ''unauthorized''))\<rparr>)
        new_manager three_pages
     = (\<lparr>embeddedRecords = [], embedderService = \<lparr>initialized = True\<rparr>\<rparr>,
        Inl (BatchEmbeddingFailed ''unauthorized''))
   \<and> loadDocumentationWithEmbeddings (answering [Some [1, 0], None, None]) new_manager []
     = (\<lparr>embeddedRecords = [], embedderService = \<lparr>initialized = True\<rparr>\<rparr>, Inl NoValidTextChunks)"
proof -
  have batch: "embed_batches (answering e) (validTexts three_pages) = Inr e" for e
    by (rule embed_batches_answering) (simp_all add: three_valid)
  have batch': "embed_batches ((answering [])\<lparr>embedBatch_remote := (\<lambda>ts. Inl (ServiceError ''unauthorized''))\<rparr>)
        (validTexts three_pages) = Inl (BatchEmbeddingFailed ''unauthorized'')"
    by (subst embed_batches.simps) (simp add: three_valid)
  have none: "validTexts [] = []"
    by (simp add: validTexts_def collect_texts_def)
  have len: "length (validTexts three_pages) = 3"
    by (simp add: three_valid)
  have recs: "build_records (validTexts three_pages) [Some [1, 0], None, None]
     = ([\<lparr>record_text = js ''Embeddings convert text into dense numeric vectors.'',
           embedding = [1, 0]\<rparr>], 2)"
    by (simp add: three_valid build_records_def record_step_def element_at_def upt_rec)
  show ?thesis
    using batch batch' none len recs
    by (simp add: loadDocumentationWithEmbeddings_def Let_def embedBatch_def initialize_def
        answering_def new_manager_def hasEmbeddings_def)
qed

section \<open>The crawler\<close>

lemma enqueue_props:
  assumes "distinct q" "set q \<inter> V = {}"
  shows "distinct (enqueue V l q) \<and> set (enqueue V l q) \<inter> V = {}"
  using assms by (auto simp: enqueue_def)

lemma fold_enqueue_props:
  assumes "distinct q" "set q \<inter> V = {}"
  shows "distinct (fold (enqueue V) ls q) \<and> set (fold (enqueue V) ls q) \<inter> V = {}"
  using assms
proof (induction ls arbitrary: q)
  case Nil
  then show ?case by simp
next
  case (Cons l ls)
  then show ?case using enqueue_props [of q V l] by simp
qed

lemma fold_process_result_pages:
  "fst (fold (process_result V) results (ps, q)) = ps @ List.map_filter fst results"
  by (induction results arbitrary: ps q)
     (auto simp: process_result_def List.map_filter_simps split: option.splits prod.splits)

lemma fold_process_result_queue:
  assumes "distinct q" "set q \<inter> V = {}"
  shows "distinct (snd (fold (process_result V) results (ps, q)))
         \<and> set (snd (fold (process_result V) results (ps, q))) \<inter> V = {}"
  using assms
proof (induction results arbitrary: ps q)
  case Nil
  then show ?case by simp
next
  case (Cons r rs)
  obtain page links where r: "r = (page, links)" by (cases r)
  have "distinct (fold (enqueue V) links q) \<and> set (fold (enqueue V) links q) \<inter> V = {}"
    using Cons.prems by (rule fold_enqueue_props)
  then show ?case
    using Cons.IH [of "fold (enqueue V) links q"] by (simp add: process_result_def r)
qed

lemma fetched_page_url:
  "fst (fetchPageWithLinks env V u) = Some p \<Longrightarrow> url p = u"
  by (auto simp: fetchPageWithLinks_def Let_def split: sum.splits option.splits if_splits)

lemma new_pages_urls:
  "map url (List.map_filter fst (map (fetchPageWithLinks env V) urls))
     = filter (\<lambda>u. fst (fetchPageWithLinks env V u) \<noteq> None) urls"
proof (induction urls)
  case Nil
  then show ?case by (simp add: List.map_filter_simps)
next
  case (Cons u urls)
  then show ?case
    by (cases "fst (fetchPageWithLinks env V u)")
       (auto simp: List.map_filter_simps fetched_page_url)
qed

lemma crawl_step_inv:
  assumes inv: "crawl_inv maxPages st"
  shows "crawl_inv maxPages (crawl_step env maxPages st)"
proof -
  define batch where "batch = take CONCURRENT_LIMIT (toCrawl st)"
  define queue where "queue = drop CONCURRENT_LIMIT (toCrawl st)"
  define urls where "urls = take (maxPages - length (pages st)) batch"
  define V where "V = visitedUrls st \<union> set urls"
  define results where "results = map (fetchPageWithLinks env V) urls"
  define r where "r = fold (process_result V) results (pages st, queue)"
  define new where "new = List.map_filter fst results"
  define log where "log = dispatched st @ map (\<lambda>u. (u, u \<in> V)) urls"
  have step: "crawl_step env maxPages st =
      \<lparr>pages = fst r, toCrawl = snd r, visitedUrls = V, dispatched = log\<rparr>"
    unfolding crawl_step_def batch_def queue_def urls_def V_def results_def r_def log_def
    by (simp add: Let_def split: prod.splits)
  have d: "distinct (map fst (dispatched st))" "\<forall>d\<in>set (dispatched st). snd d"
    "fst ` set (dispatched st) \<subseteq> visitedUrls st" "distinct (toCrawl st)"
    "set (toCrawl st) \<inter> visitedUrls st = {}" "length (pages st) \<le> maxPages"
    "distinct (map url (pages st))" "url ` set (pages st) \<subseteq> fst ` set (dispatched st)"
    using inv by (simp_all add: crawl_inv_def)
  have urls_sub: "set urls \<subseteq> set batch" unfolding urls_def by (rule set_take_subset)
  have batch_sub: "set batch \<subseteq> set (toCrawl st)" unfolding batch_def by (rule set_take_subset)
  have urls_distinct: "distinct urls" using d(4) by (simp add: urls_def batch_def)
  have urls_len: "length urls \<le> maxPages - length (pages st)" by (simp add: urls_def)
  have urls_new: "set urls \<inter> visitedUrls st = {}" using urls_sub batch_sub d(5) by blast
  have "set batch \<inter> set queue = {}"
    unfolding batch_def queue_def using d(4) by (metis append_take_drop_id distinct_append)
  moreover have "set queue \<subseteq> set (toCrawl st)" unfolding queue_def by (rule set_drop_subset)
  ultimately have queue_V: "set queue \<inter> V = {}"
    using urls_sub d(5) unfolding V_def by blast
  have queue_distinct: "distinct queue" using d(4) by (simp add: queue_def)
  have q': "distinct (snd r)" "set (snd r) \<inter> V = {}"
    unfolding r_def using fold_process_result_queue [OF queue_distinct queue_V] by blast+
  have ps: "fst r = pages st @ new"
    unfolding r_def new_def by (rule fold_process_result_pages)
  have new_urls: "map url new = filter (\<lambda>u. fst (fetchPageWithLinks env V u) \<noteq> None) urls"
    unfolding new_def results_def by (rule new_pages_urls)
  have "length new = length (map url new)" by simp
  also have "\<dots> \<le> length urls" unfolding new_urls by (rule length_filter_le)
  finally have len: "length (fst r) \<le> maxPages" using d(6) urls_len by (simp add: ps)
  have new_sub: "set (map url new) \<subseteq> set urls" unfolding new_urls by auto
  have new_distinct: "distinct (map url new)" unfolding new_urls using urls_distinct by simp
  have old_pages: "set (map url (pages st)) \<subseteq> visitedUrls st" using d(3,8) by auto
  have pages_distinct: "distinct (map url (fst r))"
    using d(7) new_distinct new_sub old_pages urls_new by (auto simp: ps)
  have fst_log: "map fst log = map fst (dispatched st) @ urls"
    by (simp add: log_def comp_def)
  have old_log: "set (map fst (dispatched st)) \<subseteq> visitedUrls st" using d(3) by auto
  have log_distinct: "distinct (map fst log)"
    unfolding fst_log using d(1) old_log urls_distinct urls_new by auto
  have log_marked: "\<forall>d\<in>set log. snd d"
    using d(2) by (auto simp: log_def V_def)
  have log_V: "fst ` set log \<subseteq> V"
    using old_log fst_log unfolding V_def by (metis Un_mono set_append set_map subset_refl)
  have pages_sub: "url ` set (fst r) \<subseteq> fst ` set log"
  proof -
    have "set (map url (fst r)) \<subseteq> set (map fst log)"
      unfolding fst_log ps using d(8) new_sub by auto
    then show ?thesis by simp
  qed
  show ?thesis
    unfolding step crawl_inv_def
    using log_distinct log_marked log_V q' len pages_distinct pages_sub
    by simp
qed

lemma crawl_loop_inv:
  "crawl_inv maxPages st \<Longrightarrow> crawl_loop fuel env maxPages st = Some st' \<Longrightarrow> crawl_inv maxPages st'"
proof (induction fuel arbitrary: st)
  case 0
  then show ?case by simp
next
  case (Suc fuel)
  show ?case
  proof (cases "length (toCrawl st) > 0 \<and> length (pages st) < maxPages")
    case True
    with Suc.prems(2) have "crawl_loop fuel env maxPages (crawl_step env maxPages st) = Some st'"
      by simp
    then show ?thesis
      using Suc.IH [OF crawl_step_inv [OF Suc.prems(1)]] by blast
  next
    case False
    with Suc.prems show ?thesis by auto
  qed
qed

text \<open>A crawl of a finite site ends: every iteration marks a URL of the site visited that
  was not.\<close>

lemma fold_enqueue_subset: "set (fold (enqueue V) ls q) \<subseteq> set q \<union> set ls"
proof (induction ls arbitrary: q)
  case Nil
  then show ?case by simp
next
  case (Cons l ls)
  have "set (enqueue V l q) \<subseteq> set q \<union> {l}" by (auto simp: enqueue_def)
  with Cons [of "enqueue V l q"] show ?case by auto
qed

lemma fold_process_result_subset:
  "set (snd (fold (process_result V) results (ps, q))) \<subseteq> set q \<union> (\<Union>r\<in>set results. set (snd r))"
proof (induction results arbitrary: ps q)
  case Nil
  then show ?case by simp
next
  case (Cons r rs)
  obtain page links where r: "r = (page, links)" by (cases r)
  have "set (fold (enqueue V) links q) \<subseteq> set q \<union> set links" by (rule fold_enqueue_subset)
  with Cons [of _ "fold (enqueue V) links q"] show ?case
    by (auto simp: process_result_def r)
qed

lemma crawl_step_progress:
  assumes inv: "crawl_inv maxPages st" and site: "site_within env U" and q: "set (toCrawl st) \<subseteq> U"
    and cond: "length (toCrawl st) > 0 \<and> length (pages st) < maxPages" and fin: "finite U"
  shows "set (toCrawl (crawl_step env maxPages st)) \<subseteq> U"
    and "card (U - visitedUrls (crawl_step env maxPages st)) < card (U - visitedUrls st)"
proof -
  define urls where "urls = take (maxPages - length (pages st)) (take CONCURRENT_LIMIT (toCrawl st))"
  define V where "V = visitedUrls st \<union> set urls"
  define results where "results = map (fetchPageWithLinks env V) urls"
  define r where "r = fold (process_result V) results (pages st, drop CONCURRENT_LIMIT (toCrawl st))"
  have step: "toCrawl (crawl_step env maxPages st) = snd r"
    "visitedUrls (crawl_step env maxPages st) = V"
    unfolding crawl_step_def urls_def V_def results_def r_def
    by (simp_all add: Let_def split: prod.splits)
  have "set (snd r) \<subseteq> set (drop CONCURRENT_LIMIT (toCrawl st)) \<union> (\<Union>r\<in>set results. set (snd r))"
    unfolding r_def by (rule fold_process_result_subset)
  moreover have "set (drop CONCURRENT_LIMIT (toCrawl st)) \<subseteq> U"
    using q set_drop_subset [of CONCURRENT_LIMIT "toCrawl st"] by blast
  moreover have "(\<Union>r\<in>set results. set (snd r)) \<subseteq> U"
    using site by (auto simp: results_def site_within_def)
  ultimately show "set (toCrawl (crawl_step env maxPages st)) \<subseteq> U"
    by (simp add: step) blast
  have "urls \<noteq> []"
    using cond by (cases "toCrawl st") (simp_all add: urls_def CONCURRENT_LIMIT_def)
  then obtain u where u: "u \<in> set urls" by (cases urls) auto
  have "set urls \<subseteq> set (toCrawl st)"
    unfolding urls_def by (meson set_take_subset subset_trans)
  with u q inv have "u \<in> U - visitedUrls st" "u \<notin> U - V"
    by (auto simp: crawl_inv_def V_def)
  moreover have "U - V \<subseteq> U - visitedUrls st" by (auto simp: V_def)
  ultimately have "U - V \<subset> U - visitedUrls st" by blast
  then show "card (U - visitedUrls (crawl_step env maxPages st)) < card (U - visitedUrls st)"
    using fin by (simp add: step psubset_card_mono)
qed

lemma crawl_loop_ends:
  assumes "finite U" "site_within env U"
  shows "crawl_inv maxPages st \<Longrightarrow> set (toCrawl st) \<subseteq> U \<Longrightarrow> card (U - visitedUrls st) \<le> n
         \<Longrightarrow> \<exists>st'. crawl_loop (Suc n) env maxPages st = Some st'"
proof (induction n arbitrary: st)
  case 0
  show ?case
  proof (cases "length (toCrawl st) > 0 \<and> length (pages st) < maxPages")
    case True
    from crawl_step_progress(2) [OF "0.prems"(1) assms(2) "0.prems"(2) True assms(1)] "0.prems"(3)
    show ?thesis by simp
  next
    case False
    then show ?thesis by auto
  qed
next
  case (Suc n)
  show ?case
  proof (cases "length (toCrawl st) > 0 \<and> length (pages st) < maxPages")
    case True
    let ?st = "crawl_step env maxPages st"
    have "card (U - visitedUrls ?st) \<le> n"
      using crawl_step_progress(2) [OF Suc.prems(1) assms(2) Suc.prems(2) True assms(1)] Suc.prems(3)
      by simp
    then have "\<exists>st'. crawl_loop (Suc n) env maxPages ?st = Some st'"
      using Suc.IH [OF crawl_step_inv [OF Suc.prems(1)]
          crawl_step_progress(1) [OF Suc.prems(1) assms(2) Suc.prems(2) True assms(1)]]
      by blast
    with True show ?thesis by simp
  next
    case False
    then show ?thesis by auto
  qed
qed

lemma crawl_ends_on_finite_site:
  assumes "finite U" "site_within env U" "baseUrl \<in> U"
  shows "\<exists>st. crawlLinks (Suc (card U)) env {} baseUrl maxPages = Some st"
  unfolding crawlLinks_def
  by (rule crawl_loop_ends [OF assms(1,2)]) (simp_all add: crawl_inv_def assms(3))

text \<open>
  Claim C8. When a crawl that starts with an empty visited set ends, no URL was
  dispatched to \<open>fetchPageWithLinks\<close> twice, every dispatched URL was in \<open>visitedUrls\<close> when
  it was dispatched and is in it at the end, the queue holds no duplicate and no visited
  URL, and the result has at most \<open>maxPages\<close> pages, with different URLs, each of a
  dispatched URL.
\<close>

theorem crawl_fetches_once_and_bounded:
  assumes "crawlLinks fuel env {} baseUrl maxPages = Some st"
  shows "distinct (map fst (dispatched st))
         \<and> (\<forall>d\<in>set (dispatched st). snd d)
         \<and> fst ` set (dispatched st) \<subseteq> visitedUrls st
         \<and> distinct (toCrawl st)
         \<and> set (toCrawl st) \<inter> visitedUrls st = {}
         \<and> length (pages st) \<le> maxPages
         \<and> distinct (map url (pages st))
         \<and> url ` set (pages st) \<subseteq> fst ` set (dispatched st)"
proof -
  have "crawl_inv maxPages \<lparr>pages = [], toCrawl = [baseUrl], visitedUrls = {}, dispatched = []\<rparr>"
    by (simp add: crawl_inv_def)
  then have "crawl_inv maxPages st"
    using assms unfolding crawlLinks_def by (rule crawl_loop_inv)
  then show ?thesis by (simp add: crawl_inv_def)
qed


lemma example_links:
  "page_a \<in> V \<Longrightarrow> fetchPageWithLinks example_web V page_a
     = (Some \<lparr>url = page_a, title = js ''Intro'', content = replicate 60 0x78\<rparr>,
        (if page_b \<in> V then [] else [page_b, page_b]))"
  "page_a \<in> V \<Longrightarrow> fetchPageWithLinks example_web V page_b
     = (None, (if page_c \<in> V then [] else [page_c]))"
  "fetchPageWithLinks example_web V page_c = (None, [])"
  by (simp_all add: fetchPageWithLinks_def link_of_def example_web_def page_a_def page_b_def
      page_c_def js_def trim_def isWhiteSpace_def Let_def)

lemma example_distinct: "page_a \<noteq> page_b" "page_a \<noteq> page_c" "page_b \<noteq> page_c"
  by (simp_all add: page_a_def page_b_def page_c_def js_def)

lemma example_crawl:
  "crawlLinks 4 example_web {} page_a 2 = Some example_crawl_end"
  using example_distinct
  by (simp add: crawlLinks_def eval_nat_numeral crawl_step_def CONCURRENT_LIMIT_def
      example_links process_result_def enqueue_def example_crawl_end_def Let_def insert_commute)

theorem crawl_fetches_once_and_bounded_witness:
  "crawlLinks 4 example_web {} page_a 2 = Some example_crawl_end
   \<and> distinct (map fst (dispatched example_crawl_end))
   \<and> length (pages example_crawl_end) \<le> 2
   \<and> fst ` set (dispatched example_crawl_end) \<subseteq> visitedUrls example_crawl_end"
  using crawl_fetches_once_and_bounded [OF example_crawl] example_crawl
  by simp

end
